theory Spec2Isabelle
  imports Main "HOL-Library.AList"
begin

section \<open>Data model\<close>

text \<open>
  State documents are schema-free JSON-like values. A Python \<open>dict\<close> with string keys is
  represented by the list of its items, in insertion order (the keys of a dict are
  distinct); membership is \<open>map_of d k \<noteq> None\<close>, and \<open>d.pop(k)\<close> leaves
  \<open>AList.delete k d\<close>. The edge table of a graph is such a list too. Numbers are
  integers here; the engine never looks inside a value but to compare the control key's
  with the node ids.
\<close>

datatype jval =
    JNull
  | JBool bool
  | JInt int
  | JStr string
  | JList "jval list"
  | JDict "(string \<times> jval) list"

type_synonym doc = "(string \<times> jval) list"

text \<open>
  The exceptions the engine raises or lets through. The payload is what the source
  formats into the message.
\<close>

datatype exn =
    StartNodeInvalid              \<comment> \<open>\<open>ValueError("start_node_id must be one of the node IDs")\<close>\<close>
  | EdgeSourceInvalid string      \<comment> \<open>\<open>ValueError("Edge source '..' is not a valid node id")\<close>\<close>
  | EdgeTargetInvalid string      \<comment> \<open>\<open>ValueError("Edge target '..' is not a valid node id")\<close>\<close>
  | MaxStepsReached int           \<comment> \<open>\<open>ValueError("Max steps (n) reached. ...")\<close>\<close>
  | KeyError jval                 \<comment> \<open>a failed dictionary lookup, with the key\<close>
  | TypeError jval                \<comment> \<open>a dictionary lookup with an unhashable key\<close>
  | ToolNotRegistered string      \<comment> \<open>\<open>KeyError("Tool '..' is not registered")\<close>\<close>
  | ToolRaised string             \<comment> \<open>an \<open>Exception\<close> raised inside a tool, with its message\<close>




type_synonym addr = nat

record ExecutionStep =
  step_index :: nat
  node_id :: string
  tool_name :: string
  input_state :: addr
  output_state :: addr


text \<open>graph\_engine.py\<close>

record Graph =
  id_graph :: string
  name :: string
  start_node_id :: string
  nodes :: "string \<rightharpoonup> string"
  edges :: "(string \<times> string option) list"

record RunRecord =
  id_run :: string
  graph_id :: string
  state :: addr
  current_node_id :: jval
  log :: "addr list"
  status :: string
  error :: "exn option"

section \<open>Tools and the registry\<close>

text \<open>
  A tool receives a dict object and may mutate it in place; it then raises, or returns
  \<open>None\<close>, or returns the object it received, or returns another dict. \<open>Finishes d r\<close>
  gives the contents \<open>d\<close> of the received object when the call ends and what is returned.
  Tools are taken to be functions of the document they receive: they touch no object but
  the one they receive, keep no reference to it, a dict they return other than the one
  received is a new object, and an exception they raise is an \<open>Exception\<close>.
\<close>

datatype tool_return = ReturnsNone | ReturnsArg | ReturnsNew doc

datatype tool_outcome = Raises string | Finishes doc tool_return

type_synonym ToolFn = "doc \<Rightarrow> tool_outcome"

type_synonym ToolRegistry = "string \<rightharpoonup> ToolFn"

definition registry_get :: "ToolRegistry \<Rightarrow> string \<Rightarrow> exn + ToolFn" where
  "registry_get tools nm =
     (case tools nm of None \<Rightarrow> Inl (ToolNotRegistered nm) | Some fn \<Rightarrow> Inr fn)"

section \<open>The engine\<close>

record GraphEngine =
  tool_registry :: ToolRegistry
  graphs :: "string \<rightharpoonup> Graph"
  runs :: "string \<rightharpoonup> RunRecord"

subsection \<open>Graph management\<close>





subsection \<open>The object store\<close>

text \<open>
  Dict objects and \<open>ExecutionStep\<close> objects live in a store, addressed by references, so
  that sharing and in-place mutation are visible. \<open>fresh\<close> is the next unused address;
  every address below it is allocated. Lists of steps are values: the source never
  shares a list object (\<open>log.copy()\<close> makes a new list of the same step objects).
\<close>

record heap =
  dicts :: "addr \<Rightarrow> doc"
  step_objs :: "addr \<Rightarrow> ExecutionStep"
  fresh :: addr

definition new_dict :: "doc \<Rightarrow> heap \<Rightarrow> addr \<times> heap" where
  "new_dict d h = (fresh h, h\<lparr>dicts := (dicts h)(fresh h := d), fresh := Suc (fresh h)\<rparr>)"

text \<open>\<open>deepcopy\<close> of a dict object: a new object with the same contents.\<close>

definition deepcopy :: "addr \<Rightarrow> heap \<Rightarrow> addr \<times> heap" where
  "deepcopy a h = new_dict (dicts h a) h"

definition new_step :: "ExecutionStep \<Rightarrow> heap \<Rightarrow> addr \<times> heap" where
  "new_step s h =
     (fresh h, h\<lparr>step_objs := (step_objs h)(fresh h := s), fresh := Suc (fresh h)\<rparr>)"

subsection \<open>Execution\<close>

text \<open>The local variables of \<open>run_graph\<close> that the loop reads and writes.\<close>

record locals =
  l_state :: addr
  l_current_node_id :: jval
  l_log :: "addr list"
  l_run_record :: RunRecord

text \<open>
  \<open>graph.nodes[current_node_id]\<close>: the keys are strings, so any other hashable value is a
  missing key, and a list or dict is unhashable. Returns the node id with its tool name.
\<close>

definition lookup_node :: "Graph \<Rightarrow> jval \<Rightarrow> exn + (string \<times> string)" where
  "lookup_node graph cur =
     (case cur of
        JStr n \<Rightarrow> (case nodes graph n of None \<Rightarrow> Inl (KeyError cur) | Some t \<Rightarrow> Inr (n, t))
      | JList _ \<Rightarrow> Inl (TypeError cur)
      | JDict _ \<Rightarrow> Inl (TypeError cur)
      | _ \<Rightarrow> Inl (KeyError cur))"

text \<open>
  Lines 129--135: the input snapshot, the call on a second deep copy, and the choice of
  the new working state. Returns the snapshot and the working state object. When the
  tool raises, the copy it received is garbage and its contents are left as they were.
\<close>

definition invoke_tool :: "ToolFn \<Rightarrow> addr \<Rightarrow> heap \<Rightarrow> (exn + (addr \<times> addr)) \<times> heap" where
  "invoke_tool tool_fn st h =
     (let (input_state, h1) = deepcopy st h;
          (arg, h2) = deepcopy st h1
      in (case tool_fn (dicts h2 arg) of
            Raises msg \<Rightarrow> (Inl (ToolRaised msg), h2)
          | Finishes d r \<Rightarrow>
              let h3 = h2\<lparr>dicts := (dicts h2)(arg := d)\<rparr>
              in (case r of
                    ReturnsNone \<Rightarrow> (Inr (input_state, st), h3)
                  | ReturnsArg \<Rightarrow> (Inr (input_state, arg), h3)
                  | ReturnsNew d' \<Rightarrow>
                      let (a, h4) = new_dict d' h3 in (Inr (input_state, a), h4))))"

text \<open>Lines 149--155: the control key, popped from the working state, or the static edge.\<close>

definition resolve_next :: "Graph \<Rightarrow> string \<Rightarrow> addr \<Rightarrow> heap \<Rightarrow> jval \<times> heap" where
  "resolve_next graph cur st h =
     (case map_of (dicts h st) ''_next_node'' of
        Some v \<Rightarrow> (v, h\<lparr>dicts := (dicts h)(st := AList.delete ''_next_node'' (dicts h st))\<rparr>)
      | None \<Rightarrow>
          ((case map_of (edges graph) cur of Some (Some n) \<Rightarrow> JStr n | _ \<Rightarrow> JNull), h))"

text \<open>
  Lines 137--160: the step is appended to the log with a deep copy of the working state as
  its output snapshot, the next node is resolved, and the record is updated with a further
  deep copy of the working state, the next node and a copy of the log list. \<open>run_record\<close>
  is the object stored under \<open>run_id\<close>, so assigning to its fields updates the store's
  entry.
\<close>

definition log_and_advance ::
  "Graph \<Rightarrow> string \<Rightarrow> nat \<Rightarrow> string \<Rightarrow> string \<Rightarrow> addr \<Rightarrow> addr \<Rightarrow> locals \<Rightarrow>
     (string \<rightharpoonup> RunRecord) \<Rightarrow> heap \<Rightarrow> locals \<times> (string \<rightharpoonup> RunRecord) \<times> heap" where
  "log_and_advance graph run_id i cur tname inp st l rs h3 =
     (let (out, h4) = deepcopy st h3;
          (step, h5) = new_step \<lparr> step_index = i, node_id = cur, tool_name = tname,
                                  input_state = inp, output_state = out \<rparr> h4;
          lg = l_log l @ [step];
          (next_node_id, h6) = resolve_next graph cur st h5;
          (rstate, h7) = deepcopy st h6;
          rr = (l_run_record l)\<lparr> state := rstate, current_node_id := next_node_id,
                                  log := lg \<rparr>
      in (\<lparr> l_state = st, l_current_node_id = next_node_id, l_log = lg,
            l_run_record = rr \<rparr>,
          rs(run_id \<mapsto> rr), h7))"

text \<open>
  One pass through the loop body (lines 125--160). The result is the exception raised, if
  any, the locals, the run store and the object store.
\<close>

definition loop_body ::
  "ToolRegistry \<Rightarrow> Graph \<Rightarrow> string \<Rightarrow> nat \<Rightarrow> locals \<Rightarrow> (string \<rightharpoonup> RunRecord) \<Rightarrow> heap \<Rightarrow>
     exn option \<times> locals \<times> (string \<rightharpoonup> RunRecord) \<times> heap" where
  "loop_body tools graph run_id i l rs h =
     (case lookup_node graph (l_current_node_id l) of
        Inl e \<Rightarrow> (Some e, l, rs, h)
      | Inr (cur, tname) \<Rightarrow>
          (case registry_get tools tname of
             Inl e \<Rightarrow> (Some e, l, rs, h)
           | Inr tool_fn \<Rightarrow>
               (case invoke_tool tool_fn (l_state l) h of
                  (Inl e, h') \<Rightarrow> (Some e, l, rs, h')
                | (Inr (inp, st), h3) \<Rightarrow>
                    (case log_and_advance graph run_id i cur tname inp st l rs h3 of
                       (l', rs', h7) \<Rightarrow> (None, l', rs', h7)))))"

text \<open>
  \<open>for step_index in range(max_steps): ... else: raise ValueError(...)\<close>, over the list of
  indices still to come. The \<open>else\<close> clause runs when the indices are used up; \<open>break\<close>
  leaves the loop without it.
\<close>

fun for_loop ::
  "ToolRegistry \<Rightarrow> Graph \<Rightarrow> string \<Rightarrow> int \<Rightarrow> nat list \<Rightarrow> locals \<Rightarrow> (string \<rightharpoonup> RunRecord) \<Rightarrow> heap \<Rightarrow>
     exn option \<times> locals \<times> (string \<rightharpoonup> RunRecord) \<times> heap" where
  "for_loop tools graph run_id max_steps [] l rs h =
     (Some (MaxStepsReached max_steps), l, rs, h)"
| "for_loop tools graph run_id max_steps (i # idxs) l rs h =
     (if l_current_node_id l = JNull then (None, l, rs, h)
      else (case loop_body tools graph run_id i l rs h of
              (Some e, l', rs', h') \<Rightarrow> (Some e, l', rs', h')
            | (None, l', rs', h') \<Rightarrow> for_loop tools graph run_id max_steps idxs l' rs' h'))"

text \<open>Lines 102--118: the working copy and the record stored before the loop.\<close>

definition start_run ::
  "Graph \<Rightarrow> string \<Rightarrow> addr \<Rightarrow> string \<Rightarrow> (string \<rightharpoonup> RunRecord) \<Rightarrow> heap \<Rightarrow>
     locals \<times> (string \<rightharpoonup> RunRecord) \<times> heap" where
  "start_run graph gid initial_state run_id rs h =
     (let (st, h1) = deepcopy initial_state h;
          (rstate, h2) = deepcopy st h1;
          run_record = \<lparr> id_run = run_id, graph_id = gid, state = rstate,
                         current_node_id = JStr (start_node_id graph), log = [],
                         status = ''running'', error = None \<rparr>
      in (\<lparr> l_state = st, l_current_node_id = JStr (start_node_id graph), l_log = [],
            l_run_record = run_record \<rparr>,
          rs(run_id \<mapsto> run_record), h2))"

text \<open>
  Lines 120--175: the loop inside \<open>try\<close>, then \<open>status = "completed"\<close> and the return, or
  the handler that marks the record failed and re-raises. The record's \<open>error\<close> holds the
  exception whose \<open>str\<close> the source stores.
\<close>

definition run_loop ::
  "ToolRegistry \<Rightarrow> Graph \<Rightarrow> string \<Rightarrow> int \<Rightarrow> nat list \<Rightarrow> locals \<Rightarrow> (string \<rightharpoonup> RunRecord) \<Rightarrow> heap \<Rightarrow>
     (exn + (string \<times> addr \<times> addr list)) \<times> (string \<rightharpoonup> RunRecord) \<times> heap" where
  "run_loop tools graph run_id max_steps idxs l rs h =
     (case for_loop tools graph run_id max_steps idxs l rs h of
        (None, l', rs', h') \<Rightarrow>
          (Inr (run_id, l_state l', l_log l'),
           rs'(run_id \<mapsto> (l_run_record l')\<lparr>status := ''completed''\<rparr>), h')
      | (Some e, l', rs', h') \<Rightarrow>
          (Inl e,
           rs'(run_id \<mapsto> (l_run_record l')\<lparr>status := ''failed'', error := Some e\<rparr>), h'))"

text \<open>\<open>run_id\<close> is the value of \<open>str(uuid4())\<close>; \<open>initial_state\<close> is the caller's dict object.\<close>

definition run_graph ::
  "GraphEngine \<Rightarrow> heap \<Rightarrow> string \<Rightarrow> addr \<Rightarrow> int \<Rightarrow> string \<Rightarrow>
     (exn + (string \<times> addr \<times> addr list)) \<times> GraphEngine \<times> heap" where
  "run_graph eng h gid initial_state max_steps run_id =
     (case graphs eng gid of
        None \<Rightarrow> (Inl (KeyError (JStr gid)), eng, h)
      | Some graph \<Rightarrow>
          (case start_run graph gid initial_state run_id (runs eng) h of
             (l, rs, h2) \<Rightarrow>
               (case run_loop (tool_registry eng) graph run_id max_steps
                       [0..<nat max_steps] l rs h2 of
                  (res, rs', h') \<Rightarrow> (res, eng\<lparr>runs := rs'\<rparr>, h'))))"

subsection \<open>Introspection\<close>


subsection \<open>Reading objects through the store\<close>

text \<open>What a reader sees behind a step reference and behind a log: the fields and the
  contents of the two snapshots.\<close>

definition view_step :: "heap \<Rightarrow> addr \<Rightarrow> nat \<times> string \<times> string \<times> doc \<times> doc" where
  "view_step h p =
     (let s = step_objs h p
      in (step_index s, node_id s, tool_name s, dicts h (input_state s), dicts h (output_state s)))"

definition view_log :: "heap \<Rightarrow> addr list \<Rightarrow> (nat \<times> string \<times> string \<times> doc \<times> doc) list" where
  "view_log h lg = map (view_step h) lg"

section \<open>Specification devices\<close>

subsection \<open>Configurations at the head of the loop\<close>

text \<open>
  \<open>run_steps tools graph run_id idxs l rs h\<close> is the configuration at the head of the loop
  once the iterations with the indices \<open>idxs\<close> have all run to their end, and \<open>None\<close> when
  the loop is left before that, by \<open>break\<close> or by an exception. It composes the same
  \<open>loop_body\<close> as \<open>for_loop\<close>.
\<close>

fun run_steps ::
  "ToolRegistry \<Rightarrow> Graph \<Rightarrow> string \<Rightarrow> nat list \<Rightarrow> locals \<Rightarrow> (string \<rightharpoonup> RunRecord) \<Rightarrow> heap \<Rightarrow>
     (locals \<times> (string \<rightharpoonup> RunRecord) \<times> heap) option" where
  "run_steps tools graph run_id [] l rs h = Some (l, rs, h)"
| "run_steps tools graph run_id (i # idxs) l rs h =
     (if l_current_node_id l = JNull then None
      else (case loop_body tools graph run_id i l rs h of
              (Some e, l', rs', h') \<Rightarrow> None
            | (None, l', rs', h') \<Rightarrow> run_steps tools graph run_id idxs l' rs' h'))"

text \<open>
  \<open>loop_head eng h gid initial_state run_id k l rs h'\<close>: a run of graph \<open>gid\<close> that
  \<open>run_graph\<close> starts from the engine \<open>eng\<close> and the store \<open>h\<close>, with a budget of at least
  \<open>k\<close> steps, stands at the head of the loop with \<open>k\<close> steps completed, in the
  configuration \<open>(l, rs, h')\<close>.
\<close>

definition loop_head ::
  "GraphEngine \<Rightarrow> heap \<Rightarrow> string \<Rightarrow> addr \<Rightarrow> string \<Rightarrow> nat \<Rightarrow> locals \<Rightarrow> (string \<rightharpoonup> RunRecord) \<Rightarrow>
     heap \<Rightarrow> bool" where
  "loop_head eng h gid initial_state run_id k l rs h' =
     (case graphs eng gid of
        None \<Rightarrow> False
      | Some graph \<Rightarrow>
          (case start_run graph gid initial_state run_id (runs eng) h of
             (l0, rs0, h0) \<Rightarrow>
               run_steps (tool_registry eng) graph run_id [0..<k] l0 rs0 h0 = Some (l, rs, h')))"

subsection \<open>Invariants of the loop\<close>

text \<open>The stored record mirrors the locals, and the objects involved are allocated and
  distinct.\<close>

definition published :: "string \<Rightarrow> locals \<Rightarrow> (string \<rightharpoonup> RunRecord) \<Rightarrow> heap \<Rightarrow> bool" where
  "published run_id l rs h =
     (rs run_id = Some (l_run_record l) \<and>
      status (l_run_record l) = ''running'' \<and>
      error (l_run_record l) = None \<and>
      current_node_id (l_run_record l) = l_current_node_id l \<and>
      log (l_run_record l) = l_log l \<and>
      dicts h (state (l_run_record l)) = dicts h (l_state l) \<and>
      l_state l < fresh h \<and>
      state (l_run_record l) < fresh h \<and>
      state (l_run_record l) \<noteq> l_state l)"

text \<open>The dict objects that the steps of a log hold as snapshots.\<close>

definition snapshots :: "heap \<Rightarrow> addr list \<Rightarrow> addr set" where
  "snapshots h lg =
     (\<lambda>p. input_state (step_objs h p)) ` set lg \<union> (\<lambda>p. output_state (step_objs h p)) ` set lg"

text \<open>The log's steps and their snapshots are allocated objects, and no snapshot is the
  working state or the record's state.\<close>

definition log_separate :: "locals \<Rightarrow> heap \<Rightarrow> bool" where
  "log_separate l h =
     ((\<forall>p \<in> set (l_log l). p < fresh h) \<and>
      (\<forall>a \<in> snapshots h (l_log l).
          a < fresh h \<and> a \<noteq> l_state l \<and> a \<noteq> state (l_run_record l)))"

subsection \<open>Mutation from outside\<close>

text \<open>
  \<open>agree_except D S h h'\<close>: the store \<open>h'\<close> is \<open>h\<close> after someone has mutated in place some of
  the dict objects in \<open>D\<close> and assigned to fields of some of the step objects in \<open>S\<close>.
\<close>

definition agree_except :: "addr set \<Rightarrow> addr set \<Rightarrow> heap \<Rightarrow> heap \<Rightarrow> bool" where
  "agree_except D S h h' =
     (fresh h' = fresh h \<and>
      (\<forall>a. a \<notin> D \<longrightarrow> dicts h' a = dicts h a) \<and>
      (\<forall>p. p \<notin> S \<longrightarrow> step_objs h' p = step_objs h p))"

definition mutate_dict :: "addr \<Rightarrow> doc \<Rightarrow> heap \<Rightarrow> heap" where
  "mutate_dict a d h = h\<lparr>dicts := (dicts h)(a := d)\<rparr>"

text \<open>The document a tool hands back as the new working state, if it hands one back.\<close>

definition returned_doc :: "tool_outcome \<Rightarrow> doc option" where
  "returned_doc out =
     (case out of
        Raises msg \<Rightarrow> None
      | Finishes d r \<Rightarrow>
          (case r of ReturnsNone \<Rightarrow> None | ReturnsArg \<Rightarrow> Some d | ReturnsNew d' \<Rightarrow> Some d'))"

section \<open>Example inputs\<close>

text \<open>A store holding one dict, the caller's initial state, at address 0.\<close>

definition ex_heap :: heap where
  "ex_heap =
     \<lparr> dicts = (\<lambda>a. if a = 0 then [(''code'', JStr ''x'')] else []),
       step_objs = (\<lambda>p. \<lparr> step_index = 0, node_id = [], tool_name = [], input_state = 0,
                            output_state = 0 \<rparr>),
       fresh = 1 \<rparr>"

text \<open>The same store with the control key in the caller's initial state.\<close>

definition ex_heap_key :: heap where
  "ex_heap_key = ex_heap\<lparr> dicts := (dicts ex_heap)(0 := [(''_next_node'', JNull)]) \<rparr>"

text \<open>Tools: one that returns what it received, one that sets the control key to node
  \<open>a\<close>, one that sets it to an id that is no node, and one that mutates in place and
  returns \<open>None\<close>.\<close>

definition tool_same :: ToolFn where
  "tool_same d = Finishes d ReturnsArg"

definition tool_again :: ToolFn where
  "tool_again d = Finishes (AList.update ''_next_node'' (JStr ''a'') d) ReturnsArg"

definition tool_ghost :: ToolFn where
  "tool_ghost d = Finishes (AList.update ''_next_node'' (JStr ''ghost'') d) ReturnsArg"

definition tool_inplace :: ToolFn where
  "tool_inplace d = Finishes (AList.update ''seen'' (JBool True) d) ReturnsNone"

definition ex_tools :: ToolRegistry where
  "ex_tools =
     [''same'' \<mapsto> tool_same, ''again'' \<mapsto> tool_again, ''ghost'' \<mapsto> tool_ghost,
      ''inplace'' \<mapsto> tool_inplace]"

text \<open>Single-node graphs, one per tool, with no edge.\<close>

definition single_node :: "string \<Rightarrow> Graph" where
  "single_node t =
     \<lparr> id_graph = t, name = t, start_node_id = ''a'', nodes = [''a'' \<mapsto> t], edges = [] \<rparr>"

definition ex_engine :: GraphEngine where
  "ex_engine =
     \<lparr> tool_registry = ex_tools,
       graphs = [''same'' \<mapsto> single_node ''same'', ''again'' \<mapsto> single_node ''again'',
                 ''ghost'' \<mapsto> single_node ''ghost'', ''inplace'' \<mapsto> single_node ''inplace''],
       runs = Map.empty \<rparr>"

text \<open>The configuration in which a run of one of these graphs, on the caller's dict at
  address 0, enters the loop.\<close>

definition ex_start :: "string \<Rightarrow> locals \<times> (string \<rightharpoonup> RunRecord) \<times> heap" where
  "ex_start t = start_run (single_node t) t 0 ''r1'' Map.empty ex_heap"



section \<open>The loop body\<close>

lemmas body_defs = loop_body_def log_and_advance_def lookup_node_def registry_get_def
  invoke_tool_def resolve_next_def deepcopy_def new_dict_def new_step_def Let_def

lemmas body_splits = sum.splits jval.splits option.splits tool_outcome.splits
  tool_return.splits prod.splits

lemma loop_body_fresh_mono:
  "loop_body tools graph rid i l rs h = (r, l', rs', h') \<Longrightarrow> fresh h \<le> fresh h'"
  by (auto simp: body_defs split: body_splits)

lemma loop_body_frame:
  "loop_body tools graph rid i l rs h = (r, l', rs', h') \<Longrightarrow> l_state l < fresh h \<Longrightarrow>
   a < fresh h \<Longrightarrow> a \<noteq> l_state l \<Longrightarrow> dicts h' a = dicts h a"
  by (auto simp: body_defs split: body_splits)

lemma loop_body_steps_frame:
  "loop_body tools graph rid i l rs h = (r, l', rs', h') \<Longrightarrow> p < fresh h \<Longrightarrow>
   step_objs h' p = step_objs h p"
  by (auto simp: body_defs split: body_splits)

lemma loop_body_raise:
  "loop_body tools graph rid i l rs h = (Some e, l', rs', h') \<Longrightarrow>
   l' = l \<and> rs' = rs \<and> step_objs h' = step_objs h \<and> (\<forall>a < fresh h. dicts h' a = dicts h a)"
  by (auto simp: body_defs split: body_splits)

lemma loop_body_published:
  "loop_body tools graph rid i l rs h = (None, l', rs', h') \<Longrightarrow> published rid l rs h \<Longrightarrow>
   published rid l' rs' h'"
  by (auto simp: body_defs published_def split: body_splits)

lemma loop_body_log:
  "loop_body tools graph rid i l rs h = (None, l', rs', h') \<Longrightarrow> l_state l < fresh h \<Longrightarrow>
   \<exists>p. l_log l' = l_log l @ [p] \<and> fresh h \<le> p \<and> p < fresh h' \<and>
       step_index (step_objs h' p) = i \<and>
       fresh h \<le> input_state (step_objs h' p) \<and> input_state (step_objs h' p) < fresh h' \<and>
       fresh h \<le> output_state (step_objs h' p) \<and> output_state (step_objs h' p) < fresh h' \<and>
       input_state (step_objs h' p) \<noteq> output_state (step_objs h' p) \<and>
       input_state (step_objs h' p) \<noteq> l_state l' \<and>
       output_state (step_objs h' p) \<noteq> l_state l' \<and>
       input_state (step_objs h' p) \<noteq> state (l_run_record l') \<and>
       output_state (step_objs h' p) \<noteq> state (l_run_record l')"
  by (auto simp: body_defs split: body_splits)

lemma loop_body_state:
  "loop_body tools graph rid i l rs h = (None, l', rs', h') \<Longrightarrow>
   (l_state l' = l_state l \<or> fresh h \<le> l_state l') \<and> fresh h \<le> state (l_run_record l')"
  by (auto simp: body_defs split: body_splits)

lemma loop_body_log_separate:
  assumes b: "loop_body tools graph rid i l rs h = (None, l', rs', h')"
    and p: "published rid l rs h" and s: "log_separate l h"
  shows "log_separate l' h'"
proof -
  have sl: "l_state l < fresh h" using p by (simp add: published_def)
  from loop_body_log [OF b sl] obtain p where
    lg: "l_log l' = l_log l @ [p]" and pf: "fresh h \<le> p" "p < fresh h'" and
    new: "fresh h \<le> input_state (step_objs h' p)" "input_state (step_objs h' p) < fresh h'"
       "fresh h \<le> output_state (step_objs h' p)" "output_state (step_objs h' p) < fresh h'"
       "input_state (step_objs h' p) \<noteq> l_state l'"
       "output_state (step_objs h' p) \<noteq> l_state l'"
       "input_state (step_objs h' p) \<noteq> state (l_run_record l')"
       "output_state (step_objs h' p) \<noteq> state (l_run_record l')"
    by blast
  have mono: "fresh h \<le> fresh h'" by (rule loop_body_fresh_mono [OF b])
  have old: "\<And>q. q \<in> set (l_log l) \<Longrightarrow> step_objs h' q = step_objs h q"
    using s loop_body_steps_frame [OF b] by (auto simp: log_separate_def)
  from loop_body_state [OF b] have st: "l_state l' = l_state l \<or> fresh h \<le> l_state l'"
    and rr: "fresh h \<le> state (l_run_record l')" by auto
  have 1: "\<forall>q \<in> set (l_log l'). q < fresh h'"
    using lg pf s mono by (auto simp: log_separate_def)
  have 2: "a < fresh h' \<and> a \<noteq> l_state l' \<and> a \<noteq> state (l_run_record l')"
    if "a \<in> snapshots h' (l_log l')" for a
  proof -
    from that consider "a = input_state (step_objs h' p)" | "a = output_state (step_objs h' p)"
      | "a \<in> snapshots h (l_log l)"
      using lg old by (auto simp: snapshots_def)
    then show ?thesis
    proof cases
      case 1 then show ?thesis using new by simp
    next
      case 2 then show ?thesis using new by simp
    next
      case 3
      then have "a < fresh h" "a \<noteq> l_state l"
        using s by (auto simp: log_separate_def)
      then show ?thesis using mono st rr by auto
    qed
  qed
  from 1 2 show ?thesis
    unfolding log_separate_def by blast
qed

lemma loop_body_snapshots:
  assumes "loop_body tools graph rid i l rs h = (None, l', rs', h')" "l_state l < fresh h"
  shows "\<exists>p. l_log l' = l_log l @ [p] \<and>
           input_state (step_objs h' p) \<noteq> output_state (step_objs h' p) \<and>
           dicts h' (input_state (step_objs h' p)) = dicts h (l_state l) \<and>
           dicts h' (l_state l') =
             AList.delete ''_next_node'' (dicts h' (output_state (step_objs h' p)))"
proof -
  have id: "\<And>d. map_of d ''_next_node'' = None \<Longrightarrow> AList.delete ''_next_node'' d = d"
    by (simp add: map_of_eq_None_iff)
  from assms show ?thesis
    by (auto simp: body_defs id split: body_splits)
qed

lemma lookup_node_fails:
  "v \<noteq> JNull \<Longrightarrow> \<forall>n. v = JStr n \<longrightarrow> nodes graph n = None \<Longrightarrow>
   \<exists>e. lookup_node graph v = Inl e \<and> (e = KeyError v \<or> e = TypeError v)"
  by (cases v) (auto simp: lookup_node_def)

lemma loop_body_returned_doc:
  assumes "l_current_node_id l = JStr n" "nodes graph n = Some t" "tools t = Some tool_fn"
      and "returned_doc (tool_fn (dicts h (l_state l))) = Some d"
      and "map_of d ''_next_node'' = Some v"
      and "l_state l < fresh h"
  shows "\<exists>l' rs' h'. loop_body tools graph rid i l rs h = (None, l', rs', h') \<and>
           l_current_node_id l' = v"
  using assms
  by (auto simp: body_defs returned_doc_def split: body_splits)

section \<open>The loop and the run\<close>

lemma start_run_published:
  "start_run graph gid initial rid rs h = (l, rs', h') \<Longrightarrow>
   published rid l rs' h' \<and> log_separate l h' \<and> l_log l = [] \<and>
   l_current_node_id l = JStr (start_node_id graph) \<and>
   id_run (l_run_record l) = rid \<and> graph_id (l_run_record l) = gid \<and>
   dicts h' (l_state l) = dicts h initial \<and> l_state l = fresh h \<and>
   state (l_run_record l) = Suc (fresh h) \<and> fresh h' = Suc (Suc (fresh h)) \<and>
   step_objs h' = step_objs h \<and> (\<forall>a < fresh h. dicts h' a = dicts h a) \<and>
   (\<forall>r. r \<noteq> rid \<longrightarrow> rs' r = rs r)"
  by (auto simp: start_run_def deepcopy_def new_dict_def Let_def published_def
                 log_separate_def snapshots_def)

lemma run_steps_append:
  "run_steps tools graph rid (xs @ ys) l rs h =
     (case run_steps tools graph rid xs l rs h of
        None \<Rightarrow> None
      | Some (l', rs', h') \<Rightarrow> run_steps tools graph rid ys l' rs' h')"
  by (induction xs arbitrary: l rs h) (auto split: prod.splits option.splits)

lemma for_loop_run_steps:
  "run_steps tools graph rid xs l rs h = Some (l', rs', h') \<Longrightarrow>
   for_loop tools graph rid m (xs @ ys) l rs h = for_loop tools graph rid m ys l' rs' h'"
  by (induction xs arbitrary: l rs h) (auto split: prod.splits option.splits if_splits)

text \<open>What holds at every loop head reached from a configuration where it holds.\<close>

lemma run_steps_invariant:
  "run_steps tools graph rid xs l rs h = Some (l', rs', h') \<Longrightarrow>
   published rid l rs h \<Longrightarrow> log_separate l h \<Longrightarrow>
   published rid l' rs' h' \<and> log_separate l' h' \<and> fresh h \<le> fresh h' \<and>
   length (l_log l') = length (l_log l) + length xs \<and>
   id_run (l_run_record l') = id_run (l_run_record l) \<and>
   graph_id (l_run_record l') = graph_id (l_run_record l)"
proof (induction xs arbitrary: l rs h)
  case Nil
  then show ?case by simp
next
  case (Cons i xs)
  from Cons.prems(1) obtain l1 rs1 h1 where
    b: "loop_body tools graph rid i l rs h = (None, l1, rs1, h1)" and
    r: "run_steps tools graph rid xs l1 rs1 h1 = Some (l', rs', h')"
    by (auto split: if_splits prod.splits option.splits)
  have p1: "published rid l1 rs1 h1"
    by (rule loop_body_published [OF b Cons.prems(2)])
  have s1: "log_separate l1 h1"
    by (rule loop_body_log_separate [OF b Cons.prems(2,3)])
  have sl: "l_state l < fresh h" using Cons.prems(2) by (simp add: published_def)
  from loop_body_log [OF b sl] have len: "length (l_log l1) = Suc (length (l_log l))"
    by auto
  have ids: "id_run (l_run_record l1) = id_run (l_run_record l) \<and>
             graph_id (l_run_record l1) = graph_id (l_run_record l)"
    using b by (auto simp: body_defs split: body_splits)
  from Cons.IH [OF r p1 s1] loop_body_fresh_mono [OF b] len ids
  show ?case by simp
qed

lemma run_steps_frame:
  "run_steps tools graph rid xs l rs h = Some (l', rs', h') \<Longrightarrow> l_state l < fresh h \<Longrightarrow>
   fresh h \<le> fresh h' \<and> l_state l' < fresh h' \<and>
   (l_state l' = l_state l \<or> fresh h \<le> l_state l') \<and>
   (\<forall>a < fresh h. a \<noteq> l_state l \<longrightarrow> dicts h' a = dicts h a) \<and>
   (\<forall>p < fresh h. step_objs h' p = step_objs h p)"
proof (induction xs arbitrary: l rs h)
  case Nil
  then show ?case by simp
next
  case (Cons i xs)
  from Cons.prems(1) obtain l1 rs1 h1 where
    b: "loop_body tools graph rid i l rs h = (None, l1, rs1, h1)" and
    r: "run_steps tools graph rid xs l1 rs1 h1 = Some (l', rs', h')"
    by (auto split: if_splits prod.splits option.splits)
  have m: "fresh h \<le> fresh h1" by (rule loop_body_fresh_mono [OF b])
  have st: "l_state l1 = l_state l \<or> fresh h \<le> l_state l1"
    using loop_body_state [OF b] by simp
  have lt: "l_state l1 < fresh h1"
    using b Cons.prems(2) by (auto simp: body_defs split: body_splits)
  note ih = Cons.IH [OF r lt]
  have f1: "\<And>a. a < fresh h \<Longrightarrow> a \<noteq> l_state l \<Longrightarrow> dicts h1 a = dicts h a"
    using loop_body_frame [OF b Cons.prems(2)] by blast
  have g1: "\<And>p. p < fresh h \<Longrightarrow> step_objs h1 p = step_objs h p"
    using loop_body_steps_frame [OF b] by blast
  show ?case
  proof (intro conjI allI impI)
    show "fresh h \<le> fresh h'" using ih m by linarith
    show "l_state l' < fresh h'" using ih by blast
    show "l_state l' = l_state l \<or> fresh h \<le> l_state l'" using ih st m by linarith
  next
    fix a assume a: "a < fresh h" "a \<noteq> l_state l"
    then have "a < fresh h1" "a \<noteq> l_state l1" using m st by auto
    then have "dicts h' a = dicts h1 a" using ih by blast
    then show "dicts h' a = dicts h a" using f1 a by simp
  next
    fix p assume p: "p < fresh h"
    then have "p < fresh h1" using m by simp
    then have "step_objs h' p = step_objs h1 p" using ih by blast
    then show "step_objs h' p = step_objs h p" using g1 p by simp
  qed
qed

text \<open>How the loop ends: some iterations complete, and then the loop breaks, or the
  indices are used up, or the next body raises.\<close>

lemma for_loop_cases:
  "for_loop tools graph rid m idxs l rs h = (r, l', rs', h') \<Longrightarrow>
   \<exists>dn rest hk. idxs = dn @ rest \<and> run_steps tools graph rid dn l rs h = Some (l', rs', hk) \<and>
     ((r = None \<and> rest \<noteq> [] \<and> l_current_node_id l' = JNull \<and> h' = hk) \<or>
      (r = Some (MaxStepsReached m) \<and> rest = [] \<and> h' = hk) \<or>
      (\<exists>e. r = Some e \<and> rest \<noteq> [] \<and> l_current_node_id l' \<noteq> JNull \<and>
           loop_body tools graph rid (hd rest) l' rs' hk = (Some e, l', rs', h')))"
proof (induction idxs arbitrary: l rs h)
  case Nil
  then show ?case by auto
next
  case (Cons i idxs)
  show ?case
  proof (cases "l_current_node_id l = JNull")
    case True
    with Cons.prems have "r = None" "l' = l" "rs' = rs" "h' = h" by auto
    with True show ?thesis
      by (intro exI [of _ "[]"] exI [of _ "i # idxs"] exI [of _ h]) simp
  next
    case False
    obtain r1 l1 rs1 h1 where b: "loop_body tools graph rid i l rs h = (r1, l1, rs1, h1)"
      by (cases "loop_body tools graph rid i l rs h") auto
    show ?thesis
    proof (cases r1)
      case None
      with b False Cons.prems
      have "for_loop tools graph rid m idxs l1 rs1 h1 = (r, l', rs', h')" by simp
      from Cons.IH [OF this] obtain dn rest hk where
        d: "idxs = dn @ rest" "run_steps tools graph rid dn l1 rs1 h1 = Some (l', rs', hk)"
         "(r = None \<and> rest \<noteq> [] \<and> l_current_node_id l' = JNull \<and> h' = hk) \<or>
          (r = Some (MaxStepsReached m) \<and> rest = [] \<and> h' = hk) \<or>
          (\<exists>e. r = Some e \<and> rest \<noteq> [] \<and> l_current_node_id l' \<noteq> JNull \<and>
             loop_body tools graph rid (hd rest) l' rs' hk = (Some e, l', rs', h'))"
        by blast
      from d(1,2) b None False
      have "i # idxs = (i # dn) @ rest \<and>
            run_steps tools graph rid (i # dn) l rs h = Some (l', rs', hk)"
        by simp
      with d(3) show ?thesis by blast
    next
      case (Some e)
      with b False Cons.prems have eq: "r = Some e" "l' = l1" "rs' = rs1" "h' = h1" by auto
      from loop_body_raise [OF b [unfolded Some]] have "l1 = l" "rs1 = rs" by auto
      with eq b Some False show ?thesis
        by (intro exI [of _ "[]"] exI [of _ "i # idxs"] exI [of _ h]) simp
    qed
  qed
qed

lemma run_steps_indices:
  "run_steps tools graph rid xs l rs h = Some (l', rs', h') \<Longrightarrow> l_state l < fresh h \<Longrightarrow>
   \<forall>p \<in> set (l_log l). p < fresh h \<Longrightarrow>
   map (\<lambda>p. step_index (step_objs h' p)) (l_log l') =
     map (\<lambda>p. step_index (step_objs h p)) (l_log l) @ xs \<and>
   (\<forall>p \<in> set (l_log l'). p < fresh h')"
proof (induction xs arbitrary: l rs h)
  case Nil
  then show ?case by simp
next
  case (Cons i xs)
  from Cons.prems(1) obtain l1 rs1 h1 where
    b: "loop_body tools graph rid i l rs h = (None, l1, rs1, h1)" and
    r: "run_steps tools graph rid xs l1 rs1 h1 = Some (l', rs', h')"
    by (auto split: if_splits prod.splits option.splits)
  from loop_body_log [OF b Cons.prems(2)] obtain p where
    p: "l_log l1 = l_log l @ [p]" "p < fresh h1" "step_index (step_objs h1 p) = i"
    by blast
  have m: "fresh h \<le> fresh h1" by (rule loop_body_fresh_mono [OF b])
  have lt: "l_state l1 < fresh h1"
    using b Cons.prems(2) by (auto simp: body_defs split: body_splits)
  have old: "\<And>q. q \<in> set (l_log l) \<Longrightarrow> step_objs h1 q = step_objs h q"
    using Cons.prems(3) loop_body_steps_frame [OF b] by blast
  have al: "\<forall>q \<in> set (l_log l1). q < fresh h1"
    using p Cons.prems(3) m by auto
  have "map (\<lambda>p. step_index (step_objs h1 p)) (l_log l1) =
        map (\<lambda>p. step_index (step_objs h p)) (l_log l) @ [i]"
    using p old by simp
  with Cons.IH [OF r lt al] show ?case by simp
qed

lemma loop_head_facts:
  assumes "loop_head eng h gid initial rid k l rs hk"
  shows "\<exists>graph. graphs eng gid = Some graph \<and>
     published rid l rs hk \<and> log_separate l hk \<and> length (l_log l) = k \<and>
     map (\<lambda>p. step_index (step_objs hk p)) (l_log l) = [0..<k] \<and>
     id_run (l_run_record l) = rid \<and> graph_id (l_run_record l) = gid \<and>
     Suc (Suc (fresh h)) \<le> fresh hk \<and> fresh h \<le> l_state l \<and>
     (\<forall>a < fresh h. dicts hk a = dicts h a) \<and>
     (\<forall>p < fresh h. step_objs hk p = step_objs h p) \<and>
     (k = 0 \<longrightarrow> l_current_node_id l = JStr (start_node_id graph) \<and>
                dicts hk (l_state l) = dicts h initial)"
proof -
  from assms obtain graph l0 rs0 h0 where
    g: "graphs eng gid = Some graph" and
    s: "start_run graph gid initial rid (runs eng) h = (l0, rs0, h0)" and
    r: "run_steps (tool_registry eng) graph rid [0..<k] l0 rs0 h0 = Some (l, rs, hk)"
    by (auto simp: loop_head_def split: option.splits prod.splits)
  note st = start_run_published [OF s]
  from st have p0: "published rid l0 rs0 h0" and s0: "log_separate l0 h0" by blast+
  from st have lt0: "l_state l0 < fresh h0" by simp
  note inv = run_steps_invariant [OF r p0 s0]
  note fr = run_steps_frame [OF r lt0]
  from st have "\<forall>p \<in> set (l_log l0). p < fresh h0" by simp
  note ix = run_steps_indices [OF r lt0 this]
  have a: "\<forall>a < fresh h. dicts hk a = dicts h a"
  proof (intro allI impI)
    fix a assume "a < fresh h"
    with st have "a < fresh h0" "a \<noteq> l_state l0" "dicts h0 a = dicts h a" by auto
    with fr show "dicts hk a = dicts h a" by metis
  qed
  have b: "\<forall>p < fresh h. step_objs hk p = step_objs h p"
  proof (intro allI impI)
    fix p assume "p < fresh h"
    with st have "p < fresh h0" "step_objs h0 p = step_objs h p" by auto
    with fr show "step_objs hk p = step_objs h p" by metis
  qed
  have c: "k = 0 \<longrightarrow> l_current_node_id l = JStr (start_node_id graph) \<and>
                dicts hk (l_state l) = dicts h initial"
    using r st by auto
  have d: "fresh h \<le> l_state l" using fr st by auto
  from g inv ix st a b c d fr show ?thesis by auto
qed

lemma loop_head_for_loop:
  assumes "loop_head eng h gid initial rid k l rs hk" and "k \<le> n"
      and "graphs eng gid = Some graph"
      and "start_run graph gid initial rid (runs eng) h = (l0, rs0, h0)"
  shows "for_loop (tool_registry eng) graph rid m [0..<n] l0 rs0 h0 =
         for_loop (tool_registry eng) graph rid m [k..<n] l rs hk"
proof -
  from assms(1,3,4)
  have r: "run_steps (tool_registry eng) graph rid [0..<k] l0 rs0 h0 = Some (l, rs, hk)"
    by (simp add: loop_head_def)
  have "[0..<n] = [0..<k] @ [k..<n]"
    using assms(2) by (metis le_add_diff_inverse upt_add_eq_append zero_le)
  with for_loop_run_steps [OF r] show ?thesis by simp
qed

lemma run_graph_unfold:
  assumes "graphs eng gid = Some graph"
      and "start_run graph gid initial rid (runs eng) h = (l0, rs0, h0)"
      and "for_loop (tool_registry eng) graph rid m [0..<nat m] l0 rs0 h0 = (r, l', rs', h')"
  shows "run_graph eng h gid initial m rid =
     (case r of
        None \<Rightarrow> (Inr (rid, l_state l', l_log l'),
                  eng\<lparr>runs := rs'(rid \<mapsto> (l_run_record l')\<lparr>status := ''completed''\<rparr>)\<rparr>, h')
      | Some e \<Rightarrow> (Inl e,
                  eng\<lparr>runs := rs'(rid \<mapsto> (l_run_record l')\<lparr>status := ''failed'',
                                                             error := Some e\<rparr>)\<rparr>, h'))"
  using assms by (simp add: run_graph_def run_loop_def split: option.splits)

lemma run_graph_from_head:
  assumes lh: "loop_head eng h gid initial rid k l rs hk" and k: "k \<le> nat m"
      and g: "graphs eng gid = Some graph"
  shows "run_graph eng h gid initial m rid =
     (case run_loop (tool_registry eng) graph rid m [k..<nat m] l rs hk of
        (res, rs', h') \<Rightarrow> (res, eng\<lparr>runs := rs'\<rparr>, h'))"
proof -
  obtain l0 rs0 h0 where s: "start_run graph gid initial rid (runs eng) h = (l0, rs0, h0)"
    by (cases "start_run graph gid initial rid (runs eng) h") auto
  from loop_head_for_loop [OF lh k g s, of m] g s show ?thesis
    by (simp add: run_graph_def run_loop_def)
qed

lemma loop_head_split:
  assumes lh: "loop_head eng h gid initial rid j lj rsj hj" and k: "k \<le> j"
      and g: "graphs eng gid = Some graph"
  shows "\<exists>l rs hk. loop_head eng h gid initial rid k l rs hk \<and>
           run_steps (tool_registry eng) graph rid [k..<j] l rs hk = Some (lj, rsj, hj)"
proof -
  obtain l0 rs0 h0 where s: "start_run graph gid initial rid (runs eng) h = (l0, rs0, h0)"
    by (cases "start_run graph gid initial rid (runs eng) h") auto
  from lh g s
  have r: "run_steps (tool_registry eng) graph rid [0..<j] l0 rs0 h0 = Some (lj, rsj, hj)"
    by (simp add: loop_head_def)
  have "[0..<j] = [0..<k] @ [k..<j]"
    using k by (metis le_add_diff_inverse upt_add_eq_append zero_le)
  with r run_steps_append [of "tool_registry eng" graph rid "[0..<k]" "[k..<j]" l0 rs0 h0]
  show ?thesis
    using g s by (auto simp: loop_head_def split: option.splits)
qed

lemma run_steps_stable:
  assumes r: "run_steps tools graph rid xs l rs h = Some (l', rs', h')"
      and p: "published rid l rs h" and s: "log_separate l h"
  shows "take (length (l_log l)) (l_log l') = l_log l \<and>
         view_log h' (l_log l) = view_log h (l_log l)"
proof -
  from p have lt: "l_state l < fresh h" by (simp add: published_def)
  note fr = run_steps_frame [OF r lt]
  have v: "view_log h' (l_log l) = view_log h (l_log l)"
    using fr s
    by (auto simp: view_log_def view_step_def log_separate_def snapshots_def Let_def)
  have "\<exists>new. l_log l' = l_log l @ new"
    using r lt
  proof (induction xs arbitrary: l rs h)
    case Nil
    then show ?case by simp
  next
    case (Cons i xs)
    from Cons.prems(1) obtain l1 rs1 h1 where
      b: "loop_body tools graph rid i l rs h = (None, l1, rs1, h1)" and
      r1: "run_steps tools graph rid xs l1 rs1 h1 = Some (l', rs', h')"
      by (auto split: if_splits prod.splits option.splits)
    have lt1: "l_state l1 < fresh h1"
      using b Cons.prems(2) by (auto simp: body_defs split: body_splits)
    from loop_body_log [OF b Cons.prems(2)] Cons.IH [OF r1 lt1] show ?case by auto
  qed
  with v show ?thesis by auto
qed

text \<open>How a run ends: at a loop head, by \<open>break\<close>, by using up the indices, or by an
  exception of the next body.\<close>

lemma run_graph_end:
  assumes run: "run_graph eng h gid initial max_steps rid = (res, eng', h')"
      and g: "graphs eng gid = Some graph"
  shows "\<exists>k l rs hk.
     loop_head eng h gid initial rid k l rs hk \<and> k \<le> nat max_steps \<and>
     step_objs h' = step_objs hk \<and> (\<forall>a < fresh hk. dicts h' a = dicts hk a) \<and>
     ((res = Inr (rid, l_state l, l_log l) \<and> k < nat max_steps \<and>
       l_current_node_id l = JNull \<and> h' = hk \<and>
       eng' = eng\<lparr>runs := rs(rid \<mapsto> (l_run_record l)\<lparr>status := ''completed''\<rparr>)\<rparr>) \<or>
      (\<exists>e. res = Inl e \<and>
         eng' = eng\<lparr>runs := rs(rid \<mapsto> (l_run_record l)\<lparr>status := ''failed'',
                                                            error := Some e\<rparr>)\<rparr> \<and>
         ((k = nat max_steps \<and> e = MaxStepsReached max_steps \<and> h' = hk) \<or>
          (k < nat max_steps \<and> l_current_node_id l \<noteq> JNull \<and>
           loop_body (tool_registry eng) graph rid k l rs hk = (Some e, l, rs, h')))))"
proof -
  obtain l0 rs0 h0 where s: "start_run graph gid initial rid (runs eng) h = (l0, rs0, h0)"
    by (cases "start_run graph gid initial rid (runs eng) h") auto
  obtain r l rs hf where
    f: "for_loop (tool_registry eng) graph rid max_steps [0..<nat max_steps] l0 rs0 h0 =
          (r, l, rs, hf)"
    by (cases "for_loop (tool_registry eng) graph rid max_steps [0..<nat max_steps] l0 rs0 h0")
       auto
  note ru = run_graph_unfold [OF g s f]
  from for_loop_cases [OF f] obtain dn rest hk where
    split: "[0..<nat max_steps] = dn @ rest" and
    rs: "run_steps (tool_registry eng) graph rid dn l0 rs0 h0 = Some (l, rs, hk)" and
    how: "(r = None \<and> rest \<noteq> [] \<and> l_current_node_id l = JNull \<and> hf = hk) \<or>
      (r = Some (MaxStepsReached max_steps) \<and> rest = [] \<and> hf = hk) \<or>
      (\<exists>e. r = Some e \<and> rest \<noteq> [] \<and> l_current_node_id l \<noteq> JNull \<and>
           loop_body (tool_registry eng) graph rid (hd rest) l rs hk = (Some e, l, rs, hf))"
    by blast
  define k where "k = length dn"
  from split have dn: "dn = [0..<k]" and rest: "rest = [k..<nat max_steps]" and
    kle: "k \<le> nat max_steps"
    unfolding k_def
    by (metis append_eq_conv_conj take_upt length_upt diff_zero add_0 length_append
              le_add1 drop_upt add.commute)+
  from rs dn g s have lh: "loop_head eng h gid initial rid k l rs hk"
    by (simp add: loop_head_def)
  have hd: "rest \<noteq> [] \<Longrightarrow> hd rest = k \<and> k < nat max_steps"
    using rest by (auto simp: upt_conv_Cons)
  have e0: "rest = [] \<Longrightarrow> k = nat max_steps"
    using rest kle by auto
  from how show ?thesis
  proof (elim disjE conjE exE)
    assume "r = None" "rest \<noteq> []" "l_current_node_id l = JNull" "hf = hk"
    with ru run lh kle hd show ?thesis
      by (intro exI [of _ k] exI [of _ l] exI [of _ rs] exI [of _ hk]) auto
  next
    assume "r = Some (MaxStepsReached max_steps)" "rest = []" "hf = hk"
    with ru run lh kle e0 show ?thesis
      by (intro exI [of _ k] exI [of _ l] exI [of _ rs] exI [of _ hk]) auto
  next
    fix e
    assume a: "r = Some e" "rest \<noteq> []" "l_current_node_id l \<noteq> JNull"
      "loop_body (tool_registry eng) graph rid (hd rest) l rs hk = (Some e, l, rs, hf)"
    with hd have b: "loop_body (tool_registry eng) graph rid k l rs hk = (Some e, l, rs, hf)"
      by simp
    from loop_body_raise [OF b] a(1,3) b ru run lh kle hd [OF a(2)] show ?thesis
      by (intro exI [of _ k] exI [of _ l] exI [of _ rs] exI [of _ hk]) auto
  qed
qed

lemma run_steps_owned:
  "run_steps tools graph rid xs l rs h = Some (l', rs', h') \<Longrightarrow>
   published rid l rs h \<Longrightarrow> log_separate l h \<Longrightarrow> b \<le> fresh h \<Longrightarrow>
   b \<le> l_state l \<and> b \<le> state (l_run_record l) \<and> (\<forall>p \<in> set (l_log l). b \<le> p) \<and>
     (\<forall>a \<in> snapshots h (l_log l). b \<le> a) \<Longrightarrow>
   b \<le> l_state l' \<and> b \<le> state (l_run_record l') \<and> (\<forall>p \<in> set (l_log l'). b \<le> p) \<and>
     (\<forall>a \<in> snapshots h' (l_log l'). b \<le> a)"
proof (induction xs arbitrary: l rs h)
  case Nil
  then show ?case by simp
next
  case (Cons i xs)
  from Cons.prems(1) obtain l1 rs1 h1 where
    b: "loop_body tools graph rid i l rs h = (None, l1, rs1, h1)" and
    r: "run_steps tools graph rid xs l1 rs1 h1 = Some (l', rs', h')"
    by (auto split: if_splits prod.splits option.splits)
  have p1: "published rid l1 rs1 h1"
    by (rule loop_body_published [OF b Cons.prems(2)])
  have s1: "log_separate l1 h1"
    by (rule loop_body_log_separate [OF b Cons.prems(2,3)])
  have sl: "l_state l < fresh h" using Cons.prems(2) by (simp add: published_def)
  have m: "b \<le> fresh h1" using loop_body_fresh_mono [OF b] Cons.prems(4) by simp
  from loop_body_log [OF b sl] obtain p where
    p: "l_log l1 = l_log l @ [p]" "fresh h \<le> p"
       "fresh h \<le> input_state (step_objs h1 p)" "fresh h \<le> output_state (step_objs h1 p)"
    by blast
  have old: "\<And>q. q \<in> set (l_log l) \<Longrightarrow> step_objs h1 q = step_objs h q"
    using Cons.prems(3) loop_body_steps_frame [OF b] by (auto simp: log_separate_def)
  have sn: "snapshots h1 (l_log l1) =
              snapshots h (l_log l) \<union>
              {input_state (step_objs h1 p), output_state (step_objs h1 p)}"
    using p(1) old by (auto simp: snapshots_def)
  have o1: "b \<le> l_state l1 \<and> b \<le> state (l_run_record l1) \<and>
            (\<forall>p \<in> set (l_log l1). b \<le> p) \<and> (\<forall>a \<in> snapshots h1 (l_log l1). b \<le> a)"
    using loop_body_state [OF b] Cons.prems(4,5) p sn by auto
  from Cons.IH [OF r p1 s1 m o1] show ?case .
qed

lemma loop_head_owned:
  assumes "loop_head eng h gid initial rid k l rs hk"
  shows "fresh h \<le> l_state l \<and> fresh h \<le> state (l_run_record l) \<and>
         (\<forall>p \<in> set (l_log l). fresh h \<le> p) \<and>
         (\<forall>a \<in> snapshots hk (l_log l). fresh h \<le> a)"
proof -
  from assms obtain graph l0 rs0 h0 where
    s: "start_run graph gid initial rid (runs eng) h = (l0, rs0, h0)" and
    r: "run_steps (tool_registry eng) graph rid [0..<k] l0 rs0 h0 = Some (l, rs, hk)"
    by (auto simp: loop_head_def split: option.splits prod.splits)
  note st = start_run_published [OF s]
  from st have p0: "published rid l0 rs0 h0" and s0: "log_separate l0 h0" by blast+
  from st have b: "fresh h \<le> fresh h0" by simp
  from st have o: "fresh h \<le> l_state l0 \<and> fresh h \<le> state (l_run_record l0) \<and>
     (\<forall>p \<in> set (l_log l0). fresh h \<le> p) \<and> (\<forall>a \<in> snapshots h0 (l_log l0). fresh h \<le> a)"
    by (simp add: snapshots_def)
  from run_steps_owned [OF r p0 s0 b o] show ?thesis .
qed

lemma self_loop_steps:
  assumes tool: "\<forall>d. \<exists>d'. returned_doc (tool_fn d) = Some d' \<and>
                         map_of d' ''_next_node'' = Some (JStr n)"
      and n: "nodes graph n = Some t" "tools t = Some tool_fn"
  shows "l_current_node_id l = JStr n \<Longrightarrow> l_state l < fresh h \<Longrightarrow>
         \<exists>l' rs' h'. run_steps tools graph rid xs l rs h = Some (l', rs', h') \<and>
                     l_current_node_id l' = JStr n"
proof (induction xs arbitrary: l rs h)
  case Nil
  then show ?case by simp
next
  case (Cons i xs)
  from tool obtain d where
    d: "returned_doc (tool_fn (dicts h (l_state l))) = Some d"
       "map_of d ''_next_node'' = Some (JStr n)"
    by blast
  from loop_body_returned_doc [where tools = tools and tool_fn = tool_fn,
      OF Cons.prems(1) n d Cons.prems(2)]
  obtain l1 rs1 h1 where
    b: "loop_body tools graph rid i l rs h = (None, l1, rs1, h1)" and
    c: "l_current_node_id l1 = JStr n"
    by blast
  have lt: "l_state l1 < fresh h1"
    using b Cons.prems(2) by (auto simp: body_defs split: body_splits)
  from Cons.IH [OF c lt] b Cons.prems(1) show ?case by simp
qed

section \<open>Mutation from outside\<close>

text \<open>The loop reads the store only at the working state, and writes only to the working
  state and to new objects: run from two stores that differ elsewhere, it does the same
  and leaves them differing there only.\<close>

lemma new_dict_agree:
  "agree_except D S h1 h2 \<Longrightarrow>
   fst (new_dict d h2) = fst (new_dict d h1) \<and>
   agree_except D S (snd (new_dict d h1)) (snd (new_dict d h2))"
  by (simp add: new_dict_def agree_except_def)

lemma invoke_tool_agree:
  assumes ag: "agree_except D S h1 h2" and nd: "st \<notin> D"
      and dl: "\<forall>a \<in> D. a < fresh h1"
      and b: "invoke_tool tool_fn st h1 = (res, h1')"
  shows "\<exists>h2'. invoke_tool tool_fn st h2 = (res, h2') \<and> agree_except D S h1' h2' \<and>
           (\<forall>a \<in> D. a < fresh h1') \<and>
           (\<forall>inp st'. res = Inr (inp, st') \<longrightarrow> st' \<notin> D)"
proof -
  from ag have fr: "fresh h2 = fresh h1" by (simp add: agree_except_def)
  from ag nd have st: "dicts h2 st = dicts h1 st"
    by (simp add: agree_except_def)
  from dl have f0: "fresh h1 \<notin> D" "Suc (fresh h1) \<notin> D" "Suc (Suc (fresh h1)) \<notin> D"
    by auto
  from dl have f1: "\<And>a. a \<in> D \<Longrightarrow> a < Suc (Suc (fresh h1))"
     "\<And>a. a \<in> D \<Longrightarrow> a < Suc (Suc (Suc (fresh h1)))"
    by (auto simp: less_Suc_eq)
  from ag have da: "\<And>a. a \<notin> D \<Longrightarrow> dicts h2 a = dicts h1 a" and
    sa: "\<And>p. p \<notin> S \<Longrightarrow> step_objs h2 p = step_objs h1 p"
    by (auto simp: agree_except_def)
  show ?thesis
  proof (cases "tool_fn (dicts h1 st)")
    case (Raises msg)
    with b fr st f0 nd da sa f1 show ?thesis
      by (simp add: invoke_tool_def deepcopy_def new_dict_def Let_def agree_except_def)
         auto
  next
    case (Finishes d r)
    with b fr st f0 nd da sa f1 show ?thesis
      by (cases r)
         (auto simp add: invoke_tool_def deepcopy_def new_dict_def Let_def agree_except_def)
  qed
qed

lemma log_and_advance_agree:
  assumes ag: "agree_except D S h1 h2" and nd: "st \<notin> D"
      and dl: "\<forall>a \<in> D. a < fresh h1"
      and b: "log_and_advance graph rid i cur tname inp st l rs h1 = (l', rs', h1')"
  shows "\<exists>h2'. log_and_advance graph rid i cur tname inp st l rs h2 = (l', rs', h2') \<and>
           agree_except D S h1' h2' \<and> (\<forall>a \<in> D. a < fresh h1') \<and> l_state l' \<notin> D"
proof -
  from ag have fr: "fresh h2 = fresh h1" by (simp add: agree_except_def)
  from ag nd have st: "dicts h2 st = dicts h1 st"
    by (simp add: agree_except_def)
  from dl have f1: "\<And>a. a \<in> D \<Longrightarrow> a < Suc (Suc (Suc (fresh h1)))"
    by (auto simp: less_Suc_eq)
  from ag have da: "\<And>a. a \<notin> D \<Longrightarrow> dicts h2 a = dicts h1 a" and
    sa: "\<And>p. p \<notin> S \<Longrightarrow> step_objs h2 p = step_objs h1 p"
    by (auto simp: agree_except_def)
  show ?thesis
  proof (cases "st = fresh h1")
    case True
    with b fr st nd da sa f1 show ?thesis
      by (cases "map_of (dicts h1 st) ''_next_node''")
         (auto simp add: log_and_advance_def resolve_next_def deepcopy_def new_dict_def
            new_step_def Let_def agree_except_def)
  next
    case False
    with b fr st nd da sa f1 show ?thesis
      by (cases "map_of (dicts h1 st) ''_next_node''")
         (auto simp add: log_and_advance_def resolve_next_def deepcopy_def new_dict_def
            new_step_def Let_def agree_except_def)
  qed
qed

lemma loop_body_agree:
  assumes ag: "agree_except D S h1 h2" and nd: "l_state l \<notin> D"
      and dl: "\<forall>a \<in> D. a < fresh h1"
      and b: "loop_body tools graph rid i l rs h1 = (r, l', rs', h1')"
  shows "\<exists>h2'. loop_body tools graph rid i l rs h2 = (r, l', rs', h2') \<and>
           agree_except D S h1' h2' \<and> (\<forall>a \<in> D. a < fresh h1') \<and> l_state l' \<notin> D"
proof (cases "lookup_node graph (l_current_node_id l)")
  case (Inl e)
  with b ag nd dl show ?thesis by (auto simp: loop_body_def)
next
  case (Inr ct)
  obtain cur tname where ct: "ct = (cur, tname)" by (cases ct) auto
  show ?thesis
  proof (cases "registry_get tools tname")
    case (Inl e)
    with b ag nd dl Inr ct show ?thesis by (auto simp: loop_body_def)
  next
    case tf: (Inr tool_fn)
    obtain res h3 where iv: "invoke_tool tool_fn (l_state l) h1 = (res, h3)"
      by (cases "invoke_tool tool_fn (l_state l) h1") auto
    from invoke_tool_agree [OF ag nd dl iv] obtain k3 where
      iv2: "invoke_tool tool_fn (l_state l) h2 = (res, k3)" and
      ag3: "agree_except D S h3 k3" and dl3: "\<forall>a \<in> D. a < fresh h3" and
      nd3: "\<forall>inp st'. res = Inr (inp, st') \<longrightarrow> st' \<notin> D"
      by blast
    show ?thesis
    proof (cases res)
      case (Inl e)
      with b Inr ct tf iv iv2 ag3 dl3 nd show ?thesis
        by (auto simp: loop_body_def)
    next
      case (Inr pr)
      obtain inp st where pr: "pr = (inp, st)" by (cases pr) auto
      from nd3 Inr pr have nds: "st \<notin> D" by simp
      obtain l1 rs1 h7 where
        la: "log_and_advance graph rid i cur tname inp st l rs h3 = (l1, rs1, h7)"
        by (cases "log_and_advance graph rid i cur tname inp st l rs h3") auto
      from log_and_advance_agree [OF ag3 nds dl3 la] obtain k7 where
        la2: "log_and_advance graph rid i cur tname inp st l rs k3 = (l1, rs1, k7)" and
        ag7: "agree_except D S h7 k7" and dl7: "\<forall>a \<in> D. a < fresh h7" and
        nd7: "l_state l1 \<notin> D"
        by blast
      from b \<open>lookup_node graph (l_current_node_id l) = Inr ct\<close> ct tf iv Inr pr la
      have "r = None" "l' = l1" "rs' = rs1" "h1' = h7"
        by (auto simp: loop_body_def)
      moreover
      from \<open>lookup_node graph (l_current_node_id l) = Inr ct\<close> ct tf iv2 Inr pr la2
      have "loop_body tools graph rid i l rs h2 = (None, l1, rs1, k7)"
        by (simp add: loop_body_def)
      ultimately show ?thesis using ag7 dl7 nd7 by auto
    qed
  qed
qed

lemma for_loop_agree:
  "agree_except D S h1 h2 \<Longrightarrow> l_state l \<notin> D \<Longrightarrow> \<forall>a \<in> D. a < fresh h1 \<Longrightarrow>
   for_loop tools graph rid m idxs l rs h1 = (r, l', rs', h1') \<Longrightarrow>
   \<exists>h2'. for_loop tools graph rid m idxs l rs h2 = (r, l', rs', h2') \<and>
         agree_except D S h1' h2'"
proof (induction idxs arbitrary: l rs h1 h2)
  case Nil
  then show ?case by auto
next
  case (Cons i idxs)
  show ?case
  proof (cases "l_current_node_id l = JNull")
    case True
    with Cons.prems show ?thesis by auto
  next
    case False
    obtain r1 l1 rs1 k1 where b: "loop_body tools graph rid i l rs h1 = (r1, l1, rs1, k1)"
      by (cases "loop_body tools graph rid i l rs h1") auto
    from loop_body_agree [OF Cons.prems(1,2,3) b] obtain k2 where
      b2: "loop_body tools graph rid i l rs h2 = (r1, l1, rs1, k2)" and
      ag: "agree_except D S k1 k2" and dl: "\<forall>a \<in> D. a < fresh k1" and
      nd: "l_state l1 \<notin> D"
      by blast
    show ?thesis
    proof (cases r1)
      case None
      with b False Cons.prems(4)
      have "for_loop tools graph rid m idxs l1 rs1 k1 = (r, l', rs', h1')" by simp
      from Cons.IH [OF ag nd dl this] b2 None False show ?thesis by simp
    next
      case (Some e)
      with b b2 False Cons.prems(4) ag show ?thesis by auto
    qed
  qed
qed

lemma run_loop_agree:
  assumes "agree_except D S h1 h2" "l_state l \<notin> D" "\<forall>a \<in> D. a < fresh h1"
      and "run_loop tools graph rid m idxs l rs h1 = (res, rs', h1')"
  shows "\<exists>h2'. run_loop tools graph rid m idxs l rs h2 = (res, rs', h2') \<and>
           agree_except D S h1' h2'"
proof -
  obtain r lf rsf hf where f: "for_loop tools graph rid m idxs l rs h1 = (r, lf, rsf, hf)"
    by (cases "for_loop tools graph rid m idxs l rs h1") auto
  from for_loop_agree [OF assms(1,2,3) f] obtain kf where
    f2: "for_loop tools graph rid m idxs l rs h2 = (r, lf, rsf, kf)" and
    ag: "agree_except D S hf kf"
    by blast
  from f f2 ag assms(4) show ?thesis
    by (cases r) (auto simp: run_loop_def)
qed

section \<open>The claims\<close>

lemmas step_defs = loop_body_def log_and_advance_def registry_get_def invoke_tool_def
  resolve_next_def deepcopy_def new_dict_def new_step_def Let_def

lemmas ex_defs = ex_engine_def ex_tools_def single_node_def ex_heap_def ex_start_def
  tool_same_def tool_again_def tool_ghost_def tool_inplace_def

lemmas run_defs = run_graph_def run_loop_def start_run_def loop_head_def

lemma ex_graphs:
  "graphs ex_engine ''same'' = Some (single_node ''same'')"
  "graphs ex_engine ''again'' = Some (single_node ''again'')"
  "graphs ex_engine ''ghost'' = Some (single_node ''ghost'')"
  by (simp_all add: ex_engine_def)

subsection \<open>C1: how the loop ends\<close>

text \<open>
  C1. The claim: the run completes, and \<open>run_graph\<close> returns, whenever the current node
  becomes null within the step budget, and it fails with the max-steps error exactly
  when the budget is used up with the current node still non-null. The code at a graph
  of one node with no edge and a budget of one step: the node runs, the next node is
  \<open>None\<close>, and the run is marked failed with the max-steps error all the same, because the
  \<open>else\<close> clause of the loop runs whenever the indices are used up, also when the last
  permitted step has reached a terminal node. With a budget of two steps the same run,
  of the same single step, completes.
\<close>

theorem terminal_node_on_last_budgeted_step:
  "(\<exists>eng' h' r.
      run_graph ex_engine ex_heap ''same'' 0 1 ''r1'' = (Inl (MaxStepsReached 1), eng', h') \<and>
      runs eng' ''r1'' = Some r \<and> status r = ''failed'' \<and>
      error r = Some (MaxStepsReached 1) \<and> current_node_id r = JNull \<and>
      length (log r) = 1) \<and>
   (\<exists>st lg eng' h' r.
      run_graph ex_engine ex_heap ''same'' 0 2 ''r1'' = (Inr (''r1'', st, lg), eng', h') \<and>
      runs eng' ''r1'' = Some r \<and> status r = ''completed'' \<and>
      current_node_id r = JNull \<and> length (log r) = 1)"
  by (simp add: run_graph_def run_loop_def start_run_def body_defs ex_engine_def ex_tools_def
        single_node_def tool_same_def ex_heap_def upt_rec)

subsection \<open>C2: the next node\<close>

text \<open>
  C2. In every step whose tool call returns, with \<open>h3\<close> the store and \<open>st\<close> the working state
  right after the call: if the key \<open>_next_node\<close> is in the working state, whatever its
  value, \<open>None\<close> included, the next node is that value and the key is gone from the
  working state that the next step starts from, the other items being kept; otherwise the
  next node is the entry of the static edge table for the current node, \<open>None\<close> when
  there is no entry or the entry is \<open>None\<close>, and the working state is unchanged.
\<close>

theorem next_node_resolution:
  assumes "lookup_node graph (l_current_node_id l) = Inr (cur, tname)"
      and "tools tname = Some tool_fn"
      and "invoke_tool tool_fn (l_state l) h = (Inr (inp, st), h3)"
      and "l_state l < fresh h"
  shows "\<exists>l' rs' h'. loop_body tools graph rid i l rs h = (None, l', rs', h') \<and> l_state l' = st \<and>
     (case map_of (dicts h3 st) ''_next_node'' of
        Some v \<Rightarrow> l_current_node_id l' = v \<and>
                 dicts h' st = AList.delete ''_next_node'' (dicts h3 st) \<and>
                 map_of (dicts h' st) ''_next_node'' = None
      | None \<Rightarrow> l_current_node_id l' =
                  (case map_of (edges graph) cur of Some (Some n) \<Rightarrow> JStr n | _ \<Rightarrow> JNull) \<and>
               dicts h' st = dicts h3 st)"
proof -
  from assms(3,4) have lt: "st < fresh h3"
    by (auto simp: invoke_tool_def deepcopy_def new_dict_def Let_def split: body_splits)
  show ?thesis
  proof (cases "map_of (dicts h3 st) ''_next_node''")
    case None
    with assms(1,2,3) lt show ?thesis
      by (simp add: loop_body_def log_and_advance_def registry_get_def resolve_next_def
            deepcopy_def new_dict_def new_step_def Let_def)
  next
    case (Some v)
    with assms(1,2,3) lt show ?thesis
      by (simp add: loop_body_def log_and_advance_def registry_get_def resolve_next_def
            deepcopy_def new_dict_def new_step_def Let_def AList.delete_conv)
  qed
qed

theorem next_node_resolution_witness:
  "\<exists>l' rs' h'.
     loop_body ex_tools (single_node ''again'') ''r1'' 0 (fst (ex_start ''again''))
        (fst (snd (ex_start ''again''))) (snd (snd (ex_start ''again''))) =
       (None, l', rs', h') \<and>
     l_state l' = 4 \<and> l_current_node_id l' = JStr ''a'' \<and>
     dicts h' 4 = [(''code'', JStr ''x'')]"
proof -
  let ?l = "fst (ex_start ''again'')" and ?h = "snd (snd (ex_start ''again''))"
  let ?h3 = "snd (invoke_tool tool_again (l_state ?l) ?h)"
  have 1: "lookup_node (single_node ''again'') (l_current_node_id ?l) = Inr (''a'', ''again'')"
    by (simp add: ex_defs start_run_def deepcopy_def new_dict_def Let_def lookup_node_def)
  have 2: "ex_tools ''again'' = Some tool_again" by (simp add: ex_defs)
  have 3: "invoke_tool tool_again (l_state ?l) ?h = (Inr (3, 4), ?h3)"
    by (simp add: ex_defs start_run_def invoke_tool_def deepcopy_def new_dict_def Let_def)
  have 4: "l_state ?l < fresh ?h"
    by (simp add: ex_defs start_run_def deepcopy_def new_dict_def Let_def)
  have 5: "dicts ?h3 4 = [(''code'', JStr ''x''), (''_next_node'', JStr ''a'')]"
    by (simp add: ex_defs start_run_def invoke_tool_def deepcopy_def new_dict_def Let_def)
  from next_node_resolution [where tools = ex_tools and rid = "''r1''" and i = 0
      and rs = "fst (snd (ex_start ''again''))" and graph = "single_node ''again''",
      OF 1 2 3 4] 5
  show ?thesis by auto
qed

subsection \<open>C3: a node that always loops back to itself\<close>

text \<open>
  C3. A graph whose start node \<open>n\<close> is bound to a tool that, on every document, hands back a
  document with \<open>_next_node\<close> set to \<open>n\<close> (a single-node graph with such a tool is the
  case in point): a run with a budget of \<open>m\<close> steps runs all \<open>m\<close> steps, standing at the
  head of the loop with \<open>m\<close> steps completed, and then fails with the max-steps
  \<open>ValueError\<close>; the record is marked failed with that error and its log holds exactly
  \<open>m\<close> steps, with the indices \<open>0, ..., m - 1\<close>. With \<open>m = 5\<close>: five steps, then the
  failure.
\<close>

theorem self_loop_exhausts_budget:
  assumes g: "graphs eng gid = Some graph"
      and n: "start_node_id graph = n" "nodes graph n = Some t"
             "tool_registry eng t = Some tool_fn"
      and tool: "\<forall>d. \<exists>d'. returned_doc (tool_fn d) = Some d' \<and>
                            map_of d' ''_next_node'' = Some (JStr n)"
  shows "\<exists>eng' h' r l rs.
     run_graph eng h gid initial (int m) rid = (Inl (MaxStepsReached (int m)), eng', h') \<and>
     loop_head eng h gid initial rid m l rs h' \<and>
     runs eng' rid = Some r \<and> status r = ''failed'' \<and>
     error r = Some (MaxStepsReached (int m)) \<and> current_node_id r = JStr n \<and>
     length (log r) = m \<and> map (\<lambda>p. step_index (step_objs h' p)) (log r) = [0..<m]"
proof -
  obtain l0 rs0 h0 where s: "start_run graph gid initial rid (runs eng) h = (l0, rs0, h0)"
    by (cases "start_run graph gid initial rid (runs eng) h") auto
  note st = start_run_published [OF s]
  from st n have c0: "l_current_node_id l0 = JStr n" and lt0: "l_state l0 < fresh h0"
    by auto
  from self_loop_steps [where tools = "tool_registry eng" and tool_fn = tool_fn
      and rid = rid and xs = "[0..<m]", OF tool n(2,3) c0 lt0]
  obtain l rs hk where
    r: "run_steps (tool_registry eng) graph rid [0..<m] l0 rs0 h0 = Some (l, rs, hk)" and
    c: "l_current_node_id l = JStr n"
    by blast
  from r g s have lh: "loop_head eng h gid initial rid m l rs hk"
    by (simp add: loop_head_def)
  from for_loop_run_steps [OF r, of "int m" "[]"]
  have f: "for_loop (tool_registry eng) graph rid (int m) [0..<nat (int m)] l0 rs0 h0 =
             (Some (MaxStepsReached (int m)), l, rs, hk)"
    by simp
  note run = run_graph_unfold [OF g s f]
  from loop_head_facts [OF lh] c run lh show ?thesis
    by (auto simp: published_def)
qed

theorem self_loop_exhausts_budget_witness:
  "\<exists>eng' h' r.
     run_graph ex_engine ex_heap ''again'' 0 5 ''r1'' = (Inl (MaxStepsReached 5), eng', h') \<and>
     runs eng' ''r1'' = Some r \<and> status r = ''failed'' \<and> length (log r) = 5 \<and>
     map (\<lambda>p. step_index (step_objs h' p)) (log r) = [0, 1, 2, 3, 4]"
proof -
  have n: "start_node_id (single_node ''again'') = ''a''"
    "nodes (single_node ''again'') ''a'' = Some ''again''"
    "tool_registry ex_engine ''again'' = Some tool_again"
    by (simp_all add: ex_defs)
  have t: "\<forall>d. \<exists>d'. returned_doc (tool_again d) = Some d' \<and>
                     map_of d' ''_next_node'' = Some (JStr ''a'')"
    by (simp add: tool_again_def returned_doc_def update_conv')
  have u: "[0..<5] = [0, 1, 2, 3, 4::nat]"
    by (simp add: upt_rec)
  from self_loop_exhausts_budget [OF ex_graphs(2) n t, of ex_heap 0 5 "''r1''"] u
  show ?thesis by auto
qed

subsection \<open>C4: graph validation\<close>





subsection \<open>C5: the tool call\<close>

text \<open>
  The claim C5 as it was stated, that after a step whose tool returns \<open>None\<close> the working
  state equals the working state before the step, fails when the working state holds the
  control key, which the caller's initial state can: the tool returns \<open>None\<close>, the step
  logs the same document as input and as output snapshot, and the engine then pops the
  control key, so that the working state after the step is the empty dict.
\<close>

theorem none_return_control_key_popped:
  "\<exists>st lg eng' h'.
     run_graph ex_engine ex_heap_key ''inplace'' 0 2 ''r1'' = (Inr (''r1'', st, lg), eng', h') \<and>
     dicts ex_heap_key 0 = [(''_next_node'', JNull)] \<and>
     view_log h' lg =
       [(0, ''a'', ''inplace'', [(''_next_node'', JNull)], [(''_next_node'', JNull)])] \<and>
     dicts h' st = []"
  by (simp add: run_graph_def run_loop_def start_run_def body_defs ex_engine_def ex_tools_def
        single_node_def tool_inplace_def ex_heap_def ex_heap_key_def upt_rec view_log_def
        view_step_def)

text \<open>
  C5, as amended. In every step whose tool call returns: the tool works on a new object
  \<open>arg\<close>, not on the working state, and what it leaves in that object stays there. If it
  returns \<open>None\<close>, the working state after the call is the same object with the same
  contents as before, whatever the tool did to the dict it received; if it returns a dict
  (the one it received or another), that dict is the working state. The step logs the
  working state before the call as its input snapshot and the working state after the
  call as its output snapshot, and the working state after the step is the working state
  after the call with the control key, if it is there, taken out.
\<close>

theorem tool_invoked_on_copy:
  assumes "lookup_node graph (l_current_node_id l) = Inr (cur, tname)"
      and "tools tname = Some tool_fn"
      and "l_state l < fresh h"
      and "tool_fn (dicts h (l_state l)) = Finishes d r"
  shows "\<exists>arg inp st h3 l' rs' h' p.
     invoke_tool tool_fn (l_state l) h = (Inr (inp, st), h3) \<and>
     fresh h \<le> arg \<and> arg \<noteq> l_state l \<and> dicts h3 arg = d \<and>
     (case r of
        ReturnsNone \<Rightarrow> st = l_state l \<and> dicts h3 st = dicts h (l_state l)
      | ReturnsArg \<Rightarrow> st = arg
      | ReturnsNew d' \<Rightarrow> fresh h \<le> st \<and> st \<noteq> arg \<and> dicts h3 st = d') \<and>
     loop_body tools graph rid i l rs h = (None, l', rs', h') \<and>
     l_state l' = st \<and> l_log l' = l_log l @ [p] \<and>
     dicts h' (input_state (step_objs h' p)) = dicts h (l_state l) \<and>
     dicts h' (output_state (step_objs h' p)) = dicts h3 st \<and>
     dicts h' (l_state l') = AList.delete ''_next_node'' (dicts h3 st)"
proof -
  have id: "\<And>d. map_of d ''_next_node'' = None \<Longrightarrow> AList.delete ''_next_node'' d = d"
    by (simp add: map_of_eq_None_iff)
  show ?thesis
  proof (cases r)
    case ReturnsNone
    show ?thesis
      apply (rule exI [of _ "Suc (fresh h)"])
      using assms ReturnsNone
      apply (auto simp: step_defs id split: option.splits)
      done
  next
    case ReturnsArg
    show ?thesis
      apply (rule exI [of _ "Suc (fresh h)"])
      using assms ReturnsArg
      apply (auto simp: step_defs id split: option.splits)
      done
  next
    case (ReturnsNew d')
    show ?thesis
      apply (rule exI [of _ "Suc (fresh h)"])
      using assms ReturnsNew
      apply (auto simp: step_defs id split: option.splits)
      done
  qed
qed

theorem tool_invoked_on_copy_witness:
  "\<exists>inp h3 l' rs' h'.
     invoke_tool tool_inplace 1 (snd (snd (ex_start ''inplace''))) = (Inr (inp, 1), h3) \<and>
     dicts h3 4 = [(''code'', JStr ''x''), (''seen'', JBool True)] \<and>
     dicts h3 1 = [(''code'', JStr ''x'')] \<and>
     loop_body ex_tools (single_node ''inplace'') ''r1'' 0 (fst (ex_start ''inplace''))
        (fst (snd (ex_start ''inplace''))) (snd (snd (ex_start ''inplace''))) =
       (None, l', rs', h') \<and>
     dicts h' (l_state l') = [(''code'', JStr ''x'')]"
proof -
  let ?l = "fst (ex_start ''inplace'')" and ?h = "snd (snd (ex_start ''inplace''))"
  have 1: "lookup_node (single_node ''inplace'') (l_current_node_id ?l) = Inr (''a'', ''inplace'')"
    by (simp add: ex_defs start_run_def deepcopy_def new_dict_def Let_def lookup_node_def)
  have 2: "ex_tools ''inplace'' = Some tool_inplace" by (simp add: ex_defs)
  have 3: "l_state ?l < fresh ?h"
    by (simp add: ex_defs start_run_def deepcopy_def new_dict_def Let_def)
  have 4: "tool_inplace (dicts ?h (l_state ?l)) =
             Finishes [(''code'', JStr ''x''), (''seen'', JBool True)] ReturnsNone"
    by (simp add: ex_defs start_run_def deepcopy_def new_dict_def Let_def)
  have 5: "l_state ?l = 1" "dicts ?h 1 = [(''code'', JStr ''x'')]" "fresh ?h = 3"
    by (simp_all add: ex_defs start_run_def deepcopy_def new_dict_def Let_def)
  from tool_invoked_on_copy [where tools = ex_tools and rid = "''r1''" and i = 0
      and rs = "fst (snd (ex_start ''inplace''))", OF 1 2 3 4]
  obtain arg inp st h3 l' rs' h' p where
    a: "invoke_tool tool_inplace (l_state ?l) ?h = (Inr (inp, st), h3)" and
    b: "dicts h3 arg = [(''code'', JStr ''x''), (''seen'', JBool True)]" and
    c: "st = l_state ?l \<and> dicts h3 st = dicts ?h (l_state ?l)" and
    e: "loop_body ex_tools (single_node ''inplace'') ''r1'' 0 ?l
          (fst (snd (ex_start ''inplace''))) ?h = (None, l', rs', h')" and
    f: "l_state l' = st" "dicts h' (l_state l') = AList.delete ''_next_node'' (dicts h3 st)"
    by auto
  have arg: "dicts h3 4 = [(''code'', JStr ''x''), (''seen'', JBool True)]"
    using a 5 by (auto simp: invoke_tool_def deepcopy_def new_dict_def tool_inplace_def Let_def)
  from a c e f 5 arg show ?thesis by auto
qed

subsection \<open>C6: failed runs\<close>



subsection \<open>C7: the stored record during a run\<close>



subsection \<open>C8: log entries\<close>

text \<open>
  The claim C8 as it was stated fails: a finished run returns its log, the caller changes
  the output snapshot of the first entry in place, and the log held in the run's record
  reads differently, since \<open>log.copy()\<close> copies the list and not the steps.
\<close>

theorem log_entry_shared_with_record:
  "\<exists>rid st p lg eng' h' r.
     run_graph ex_engine ex_heap ''same'' 0 2 ''r1'' = (Inr (rid, st, p # lg), eng', h') \<and>
     runs eng' ''r1'' = Some r \<and> status r = ''completed'' \<and>
     view_log (mutate_dict (output_state (step_objs h' p)) [(''hacked'', JNull)] h') (log r)
       \<noteq> view_log h' (log r)"
  by (simp add: run_graph_def run_loop_def start_run_def body_defs ex_engine_def ex_tools_def
        single_node_def tool_same_def ex_heap_def upt_rec view_log_def view_step_def
        mutate_dict_def)

text \<open>
  C8, as amended. At every head of the loop that a run reaches, with \<open>k\<close> steps completed:
  the snapshots held by the log's steps are objects of their own, allocated by the run,
  none of them the working state or the record's state; the step just completed holds, as
  distinct objects, a copy of the working state before its tool call and a copy of the
  working state after it (the next step starts from the latter with the control key taken
  out); the engine never changes a logged entry afterwards; and whatever is done to the
  log's step objects and to their snapshots, the working state and the record's state keep
  their contents and the rest of the run has the same result, the same run store and, but
  for those objects, the same object store. The record's log, though, is a list of the same
  step objects as the engine's log.
\<close>

theorem log_entries_isolated:
  assumes g: "graphs eng gid = Some graph"
      and lh: "loop_head eng h gid initial rid k l rs hk"
  shows "(\<forall>a \<in> snapshots hk (l_log l).
            a \<noteq> l_state l \<and> (\<forall>r. rs rid = Some r \<longrightarrow> a \<noteq> state r) \<and> fresh h \<le> a) \<and>
     (\<forall>l' rs' hk'. loop_head eng h gid initial rid (Suc k) l' rs' hk' \<longrightarrow>
        (\<exists>p. l_log l' = l_log l @ [p] \<and>
           input_state (step_objs hk' p) \<noteq> output_state (step_objs hk' p) \<and>
           dicts hk' (input_state (step_objs hk' p)) = dicts hk (l_state l) \<and>
           dicts hk' (l_state l') =
             AList.delete ''_next_node'' (dicts hk' (output_state (step_objs hk' p))))) \<and>
     (\<forall>j lj rsj hj. k \<le> j \<and> loop_head eng h gid initial rid j lj rsj hj \<longrightarrow>
        take k (l_log lj) = l_log l \<and> view_log hj (l_log l) = view_log hk (l_log l)) \<and>
     (\<forall>r. rs rid = Some r \<longrightarrow> log r = l_log l) \<and>
     (\<forall>h2 max_steps res eng' h'.
        agree_except (snapshots hk (l_log l)) (set (l_log l)) hk h2 \<and> k \<le> nat max_steps \<and>
        run_graph eng h gid initial max_steps rid = (res, eng', h') \<longrightarrow>
        dicts h2 (l_state l) = dicts hk (l_state l) \<and>
        (\<exists>r. rs rid = Some r \<and> dicts h2 (state r) = dicts hk (state r)) \<and>
        (\<exists>h2'. run_loop (tool_registry eng) graph rid max_steps [k..<nat max_steps] l rs h2 =
                  (res, runs eng', h2') \<and>
               agree_except (snapshots hk (l_log l)) (set (l_log l)) h' h2'))"
proof (intro conjI allI impI ballI)
  note facts = loop_head_facts [OF lh]
  from facts have pub: "published rid l rs hk" and sep: "log_separate l hk"
    and len: "length (l_log l) = k" by blast+
  from pub have lt: "l_state l < fresh hk" and rec: "rs rid = Some (l_run_record l)"
    by (auto simp: published_def)
  { fix a assume a: "a \<in> snapshots hk (l_log l)"
    with sep show "a \<noteq> l_state l" by (auto simp: log_separate_def)
    from a loop_head_owned [OF lh] show "fresh h \<le> a" by blast
    fix r assume "rs rid = Some r"
    with a sep rec show "a \<noteq> state r" by (auto simp: log_separate_def) }
  { fix l' rs' hk' assume lh': "loop_head eng h gid initial rid (Suc k) l' rs' hk'"
    from loop_head_split [OF lh' _ g, of k] obtain l1 rs1 h1 where
      lh1: "loop_head eng h gid initial rid k l1 rs1 h1" and
      r1: "run_steps (tool_registry eng) graph rid [k..<Suc k] l1 rs1 h1 = Some (l', rs', hk')"
      by auto
    from lh lh1 g have "l1 = l" "rs1 = rs" "h1 = hk"
      by (auto simp: loop_head_def split: prod.splits)
    with r1 have b: "loop_body (tool_registry eng) graph rid k l rs hk = (None, l', rs', hk')"
      by (auto split: if_splits prod.splits option.splits)
    from loop_body_snapshots [OF b lt]
    show "\<exists>p. l_log l' = l_log l @ [p] \<and>
           input_state (step_objs hk' p) \<noteq> output_state (step_objs hk' p) \<and>
           dicts hk' (input_state (step_objs hk' p)) = dicts hk (l_state l) \<and>
           dicts hk' (l_state l') =
             AList.delete ''_next_node'' (dicts hk' (output_state (step_objs hk' p)))" . }
  { fix j lj rsj hj
    assume "k \<le> j \<and> loop_head eng h gid initial rid j lj rsj hj"
    then have kj: "k \<le> j" and lhj: "loop_head eng h gid initial rid j lj rsj hj" by auto
    from loop_head_split [OF lhj kj g] obtain l1 rs1 h1 where
      lh1: "loop_head eng h gid initial rid k l1 rs1 h1" and
      r1: "run_steps (tool_registry eng) graph rid [k..<j] l1 rs1 h1 = Some (lj, rsj, hj)"
      by auto
    from lh lh1 g have "l1 = l" "rs1 = rs" "h1 = hk"
      by (auto simp: loop_head_def split: prod.splits)
    with r1 have r: "run_steps (tool_registry eng) graph rid [k..<j] l rs hk = Some (lj, rsj, hj)"
      by simp
    from run_steps_stable [OF r pub sep] len
    show "take k (l_log lj) = l_log l" and "view_log hj (l_log l) = view_log hk (l_log l)"
      by auto }
  { fix r assume "rs rid = Some r"
    with pub show "log r = l_log l" by (simp add: published_def) }
  { fix h2 max_steps res eng' h'
    assume "agree_except (snapshots hk (l_log l)) (set (l_log l)) hk h2 \<and> k \<le> nat max_steps \<and>
        run_graph eng h gid initial max_steps rid = (res, eng', h')"
    then have ag: "agree_except (snapshots hk (l_log l)) (set (l_log l)) hk h2"
      and k: "k \<le> nat max_steps"
      and run: "run_graph eng h gid initial max_steps rid = (res, eng', h')" by auto
    from sep have nd: "l_state l \<notin> snapshots hk (l_log l)"
      and nr: "state (l_run_record l) \<notin> snapshots hk (l_log l)"
      and dl: "\<forall>a \<in> snapshots hk (l_log l). a < fresh hk"
      by (auto simp: log_separate_def)
    from ag nd show "dicts h2 (l_state l) = dicts hk (l_state l)"
      by (simp add: agree_except_def)
    from ag nr rec show "\<exists>r. rs rid = Some r \<and> dicts h2 (state r) = dicts hk (state r)"
      by (simp add: agree_except_def)
    obtain res1 rs1 h1 where
      rl: "run_loop (tool_registry eng) graph rid max_steps [k..<nat max_steps] l rs hk =
             (res1, rs1, h1)"
      by (cases "run_loop (tool_registry eng) graph rid max_steps [k..<nat max_steps] l rs hk")
         auto
    from run_graph_from_head [OF lh k g] rl run
    have "res1 = res" "rs1 = runs eng'" "h1 = h'" by auto
    with run_loop_agree [OF ag nd dl rl]
    show "\<exists>h2'. run_loop (tool_registry eng) graph rid max_steps [k..<nat max_steps] l rs h2 =
                  (res, runs eng', h2') \<and>
               agree_except (snapshots hk (l_log l)) (set (l_log l)) h' h2'"
      by simp }
qed

theorem log_entries_isolated_witness:
  "\<exists>l rs hk p h2'.
     loop_head ex_engine ex_heap ''again'' 0 ''r1'' 1 l rs hk \<and> l_log l = [p] \<and>
     input_state (step_objs hk p) \<noteq> l_state l \<and> output_state (step_objs hk p) \<noteq> l_state l \<and>
     run_loop ex_tools (single_node ''again'') ''r1'' 3 [1..<nat 3] l rs
         (mutate_dict (output_state (step_objs hk p)) [] hk) =
       (fst (run_graph ex_engine ex_heap ''again'' 0 3 ''r1''),
        runs (fst (snd (run_graph ex_engine ex_heap ''again'' 0 3 ''r1''))), h2')"
proof -
  let ?X = "run_graph ex_engine ex_heap ''again'' 0 3 ''r1''"
  have "\<exists>l rs hk. loop_head ex_engine ex_heap ''again'' 0 ''r1'' 1 l rs hk"
    by (simp add: run_defs body_defs ex_defs upt_rec)
  then obtain l rs hk where lh: "loop_head ex_engine ex_heap ''again'' 0 ''r1'' 1 l rs hk"
    by blast
  from loop_head_facts [OF lh] have "length (l_log l) = 1" by blast
  then obtain p where p: "l_log l = [p]"
    by (cases "l_log l") auto
  let ?h2 = "mutate_dict (output_state (step_objs hk p)) [] hk"
  have ag: "agree_except (snapshots hk (l_log l)) (set (l_log l)) hk ?h2"
    using p by (simp add: agree_except_def mutate_dict_def snapshots_def)
  have k: "1 \<le> nat 3" by simp
  have r: "?X = (fst ?X, fst (snd ?X), snd (snd ?X))" by simp
  have t: "tool_registry ex_engine = ex_tools" by (simp add: ex_engine_def)
  note th = log_entries_isolated [OF ex_graphs(2) lh]
  from th have a: "\<forall>a \<in> snapshots hk (l_log l). a \<noteq> l_state l" by blast
  from a p have ne: "input_state (step_objs hk p) \<noteq> l_state l"
    "output_state (step_objs hk p) \<noteq> l_state l"
    by (auto simp: snapshots_def)
  from th ag k r t
  obtain h2' where
    "run_loop ex_tools (single_node ''again'') ''r1'' 3 [1..<nat 3] l rs ?h2 =
       (fst ?X, runs (fst (snd ?X)), h2')"
    by metis
  with ne p lh show ?thesis by blast
qed

subsection \<open>C9: the caller's initial state\<close>

text \<open>
  C9. A run on the caller's dict object \<open>initial\<close>: whatever the outcome, every dict that
  existed before the call, the caller's among them, has its contents unchanged when the
  call ends; the record's state, the returned final state and the snapshots of the
  returned log are other objects than the caller's; and at every head of the loop that the
  run reaches, the working state is another object than the caller's, and whatever is done
  to the caller's object at that moment, the rest of the run has the same result, the same
  run store and, but for that object, the same object store.
\<close>

theorem initial_state_isolated:
  assumes init: "initial < fresh h"
      and g: "graphs eng gid = Some graph"
      and run: "run_graph eng h gid initial max_steps rid = (res, eng', h')"
  shows "(\<forall>a < fresh h. dicts h' a = dicts h a) \<and>
     (\<forall>r. runs eng' rid = Some r \<longrightarrow> state r \<noteq> initial) \<and>
     (\<forall>rid' st lg. res = Inr (rid', st, lg) \<longrightarrow> st \<noteq> initial \<and> initial \<notin> snapshots h' lg) \<and>
     (\<forall>k l rs hk h2.
        loop_head eng h gid initial rid k l rs hk \<and> k \<le> nat max_steps \<and>
        agree_except {initial} {} hk h2 \<longrightarrow>
        l_state l \<noteq> initial \<and>
        (\<exists>h2'. run_loop (tool_registry eng) graph rid max_steps [k..<nat max_steps] l rs h2 =
                  (res, runs eng', h2') \<and>
               agree_except {initial} {} h' h2'))"
proof (intro conjI allI impI)
  from run_graph_end [OF run g] obtain k l rs hk where
    lh: "loop_head eng h gid initial rid k l rs hk" and
    keep: "step_objs h' = step_objs hk" "\<forall>a < fresh hk. dicts h' a = dicts hk a" and
    how: "(res = Inr (rid, l_state l, l_log l) \<and>
       eng' = eng\<lparr>runs := rs(rid \<mapsto> (l_run_record l)\<lparr>status := ''completed''\<rparr>)\<rparr>) \<or>
      (\<exists>e. res = Inl e \<and>
         eng' = eng\<lparr>runs := rs(rid \<mapsto> (l_run_record l)\<lparr>status := ''failed'',
                                                            error := Some e\<rparr>)\<rparr>)"
    by blast
  note facts = loop_head_facts [OF lh]
  from facts have fr: "fresh h \<le> fresh hk" "fresh h \<le> l_state l"
    and old: "\<forall>a < fresh h. dicts hk a = dicts h a"
    and pub: "published rid l rs hk" and sep: "log_separate l hk"
    by auto
  { fix a assume "a < fresh h"
    with keep fr old show "dicts h' a = dicts h a" by auto }
  { fix r assume "runs eng' rid = Some r"
    with how have "state r = state (l_run_record l)" by auto
    moreover have "state (l_run_record l) \<noteq> initial"
      using loop_head_owned [OF lh] init by auto
    ultimately show "state r \<noteq> initial" by simp }
  { fix rid' st lg assume r: "res = Inr (rid', st, lg)"
    with how have st: "st = l_state l" and lg: "lg = l_log l" by auto
    from st fr init show "st \<noteq> initial" by simp
    have "\<And>a. a \<in> snapshots hk (l_log l) \<Longrightarrow> a \<noteq> initial"
      using loop_head_owned [OF lh] init by auto
    with lg keep show "initial \<notin> snapshots h' lg"
      by (auto simp: snapshots_def) }
  { fix k l rs hk h2
    assume a: "loop_head eng h gid initial rid k l rs hk \<and> k \<le> nat max_steps \<and>
        agree_except {initial} {} hk h2"
    then have lh: "loop_head eng h gid initial rid k l rs hk" and k: "k \<le> nat max_steps"
      and ag: "agree_except {initial} {} hk h2" by auto
    from loop_head_facts [OF lh] init
    have nd: "l_state l \<notin> {initial}" and dl: "\<forall>a \<in> {initial}. a < fresh hk"
      by auto
    from nd show "l_state l \<noteq> initial" by simp
    obtain res1 rs1 h1 where
      rl: "run_loop (tool_registry eng) graph rid max_steps [k..<nat max_steps] l rs hk =
             (res1, rs1, h1)"
      by (cases "run_loop (tool_registry eng) graph rid max_steps [k..<nat max_steps] l rs hk")
         auto
    from run_graph_from_head [OF lh k g] rl run
    have "res1 = res" "rs1 = runs eng'" "h1 = h'" by auto
    with run_loop_agree [OF ag nd dl rl]
    show "\<exists>h2'. run_loop (tool_registry eng) graph rid max_steps [k..<nat max_steps] l rs h2 =
                  (res, runs eng', h2') \<and>
               agree_except {initial} {} h' h2'"
      by simp }
qed

theorem initial_state_isolated_witness:
  "0 < fresh ex_heap \<and>
   dicts (snd (snd (run_graph ex_engine ex_heap ''again'' 0 3 ''r1''))) 0 =
     [(''code'', JStr ''x'')] \<and>
   (\<exists>l rs hk h2'.
      loop_head ex_engine ex_heap ''again'' 0 ''r1'' 1 l rs hk \<and>
      run_loop ex_tools (single_node ''again'') ''r1'' 3 [1..<nat 3] l rs
          (mutate_dict 0 [] hk) =
        (fst (run_graph ex_engine ex_heap ''again'' 0 3 ''r1''),
         runs (fst (snd (run_graph ex_engine ex_heap ''again'' 0 3 ''r1''))), h2'))"
proof -
  let ?X = "run_graph ex_engine ex_heap ''again'' 0 3 ''r1''"
  have i: "0 < fresh ex_heap" by (simp add: ex_heap_def)
  have r: "?X = (fst ?X, fst (snd ?X), snd (snd ?X))" by simp
  note th = initial_state_isolated [OF i ex_graphs(2) r]
  from th have "\<forall>a < fresh ex_heap. dicts (snd (snd ?X)) a = dicts ex_heap a" by blast
  with i have "dicts (snd (snd ?X)) 0 = dicts ex_heap 0" by blast
  then have 1: "dicts (snd (snd ?X)) 0 = [(''code'', JStr ''x'')]"
    by (simp add: ex_heap_def)
  have "\<exists>l rs hk. loop_head ex_engine ex_heap ''again'' 0 ''r1'' 1 l rs hk"
    by (simp add: run_defs body_defs ex_defs upt_rec)
  then obtain l rs hk where lh: "loop_head ex_engine ex_heap ''again'' 0 ''r1'' 1 l rs hk"
    by blast
  have ag: "agree_except {0} {} hk (mutate_dict 0 [] hk)"
    by (simp add: agree_except_def mutate_dict_def)
  have k: "1 \<le> nat 3" by simp
  have t: "tool_registry ex_engine = ex_tools" by (simp add: ex_engine_def)
  from th lh k ag t
  obtain h2' where
    "run_loop ex_tools (single_node ''again'') ''r1'' 3 [1..<nat 3] l rs (mutate_dict 0 [] hk) =
       (fst ?X, runs (fst (snd ?X)), h2')"
    by metis
  with i 1 lh show ?thesis by blast
qed

subsection \<open>C10: an override that is no node\<close>

text \<open>
  The claim C10 as it was stated fails when the step that sets the unknown id is the last
  one the budget allows: there is no following iteration, and the error recorded is the
  max-steps error, not the failed lookup.
\<close>

theorem unknown_override_on_last_budgeted_step:
  "\<exists>eng' h' r.
     run_graph ex_engine ex_heap ''ghost'' 0 1 ''r1'' = (Inl (MaxStepsReached 1), eng', h') \<and>
     runs eng' ''r1'' = Some r \<and> status r = ''failed'' \<and>
     current_node_id r = JStr ''ghost'' \<and> nodes (single_node ''ghost'') ''ghost'' = None \<and>
     error r = Some (MaxStepsReached 1) \<and> error r \<noteq> Some (KeyError (JStr ''ghost''))"
  by (simp add: run_graph_def run_loop_def start_run_def body_defs ex_engine_def ex_tools_def
        single_node_def tool_ghost_def ex_heap_def)

text \<open>
  C10, as amended. A run stands at the head of the loop with \<open>k\<close> steps completed, the
  budget allows step \<open>k\<close>, and the tool of the current node hands back a document whose
  \<open>_next_node\<close> is a non-null value \<open>v\<close> that is no node of the graph. The value is not
  checked: the step completes and \<open>v\<close> is the current node. If the budget allows a
  further step (\<open>k + 1 < max_steps\<close>), the lookup of \<open>v\<close> among the nodes fails at the start
  of it and \<open>run_graph\<close> raises that error (a \<open>KeyError\<close>, or a \<open>TypeError\<close> for an
  unhashable value); if it does not, \<open>run_graph\<close> raises the max-steps error. Either way
  the record is marked failed with the error raised, \<open>v\<close> as its current node and the
  \<open>k + 1\<close> completed steps in its log.
\<close>

theorem unknown_override_fails_next:
  assumes g: "graphs eng gid = Some graph"
      and lh: "loop_head eng h gid initial rid k l rs hk"
      and more: "Suc k \<le> nat max_steps"
      and cur: "l_current_node_id l = JStr n" "nodes graph n = Some t"
               "tool_registry eng t = Some tool_fn"
      and d: "returned_doc (tool_fn (dicts hk (l_state l))) = Some d"
             "map_of d ''_next_node'' = Some v"
      and v: "v \<noteq> JNull" "\<forall>n'. v = JStr n' \<longrightarrow> nodes graph n' = None"
  shows "\<exists>l' rs' h' e eng' r.
     loop_body (tool_registry eng) graph rid k l rs hk = (None, l', rs', h') \<and>
     loop_head eng h gid initial rid (Suc k) l' rs' h' \<and>
     l_current_node_id l' = v \<and>
     run_graph eng h gid initial max_steps rid = (Inl e, eng', h') \<and>
     (if Suc k < nat max_steps
      then lookup_node graph v = Inl e \<and> (e = KeyError v \<or> e = TypeError v)
      else e = MaxStepsReached max_steps) \<and>
     runs eng' rid = Some r \<and> status r = ''failed'' \<and> error r = Some e \<and>
     current_node_id r = v \<and> length (log r) = Suc k"
proof -
  obtain l0 rs0 h0 where s: "start_run graph gid initial rid (runs eng) h = (l0, rs0, h0)"
    by (cases "start_run graph gid initial rid (runs eng) h") auto
  from loop_head_facts [OF lh] have lt: "l_state l < fresh hk"
    by (auto simp: published_def)
  from loop_body_returned_doc [where tools = "tool_registry eng" and tool_fn = tool_fn,
      OF cur d lt]
  obtain l' rs' h' where
    b: "loop_body (tool_registry eng) graph rid k l rs hk = (None, l', rs', h')" and
    c: "l_current_node_id l' = v"
    by blast
  from lh g s
  have r: "run_steps (tool_registry eng) graph rid [0..<k] l0 rs0 h0 = Some (l, rs, hk)"
    by (simp add: loop_head_def)
  have "run_steps (tool_registry eng) graph rid ([0..<k] @ [k]) l0 rs0 h0 = Some (l', rs', h')"
    using r b cur(1) by (simp add: run_steps_append)
  then have lh': "loop_head eng h gid initial rid (Suc k) l' rs' h'"
    using g s by (simp add: loop_head_def)
  from lookup_node_fails [OF v] obtain e where
    e: "lookup_node graph v = Inl e" "e = KeyError v \<or> e = TypeError v"
    by blast
  define e' where "e' = (if Suc k < nat max_steps then e else MaxStepsReached max_steps)"
  have "for_loop (tool_registry eng) graph rid max_steps [Suc k..<nat max_steps] l' rs' h'
             = (Some e', l', rs', h')"
  proof (cases "Suc k < nat max_steps")
    case True
    then have "[Suc k..<nat max_steps] = Suc k # [Suc (Suc k)..<nat max_steps]"
      by (simp add: upt_conv_Cons)
    with True c v(1) e(1) show ?thesis by (simp add: loop_body_def e'_def)
  next
    case False
    with more have "[Suc k..<nat max_steps] = []" by simp
    with False show ?thesis by (simp add: e'_def)
  qed
  with loop_head_for_loop [OF lh' more g s, of max_steps]
  have f: "for_loop (tool_registry eng) graph rid max_steps [0..<nat max_steps] l0 rs0 h0
             = (Some e', l', rs', h')"
    by simp
  note run = run_graph_unfold [OF g s f]
  have pick: "if Suc k < nat max_steps
      then lookup_node graph v = Inl e' \<and> (e' = KeyError v \<or> e' = TypeError v)
      else e' = MaxStepsReached max_steps"
    using e by (simp add: e'_def)
  from loop_head_facts [OF lh'] b lh' c pick run show ?thesis
    by (auto simp: published_def)
qed

theorem unknown_override_fails_next_witness:
  "\<exists>eng' h' r.
     run_graph ex_engine ex_heap ''ghost'' 0 3 ''r1'' =
       (Inl (KeyError (JStr ''ghost'')), eng', h') \<and>
     runs eng' ''r1'' = Some r \<and> status r = ''failed'' \<and>
     error r = Some (KeyError (JStr ''ghost'')) \<and> length (log r) = 1"
proof -
  have "\<exists>l rs hk. loop_head ex_engine ex_heap ''ghost'' 0 ''r1'' 0 l rs hk"
    by (simp add: run_defs ex_defs deepcopy_def new_dict_def Let_def)
  then obtain l rs hk where lh: "loop_head ex_engine ex_heap ''ghost'' 0 ''r1'' 0 l rs hk"
    by blast
  from loop_head_facts [OF lh] ex_graphs(3)
  have cur: "l_current_node_id l = JStr ''a''" by (auto simp: single_node_def)
  have more: "Suc 0 \<le> nat 3" by simp
  have n: "nodes (single_node ''ghost'') ''a'' = Some ''ghost''"
    "tool_registry ex_engine ''ghost'' = Some tool_ghost"
    by (simp_all add: ex_defs)
  have d: "returned_doc (tool_ghost (dicts hk (l_state l))) =
             Some (AList.update ''_next_node'' (JStr ''ghost'') (dicts hk (l_state l)))"
    "map_of (AList.update ''_next_node'' (JStr ''ghost'') (dicts hk (l_state l)))
       ''_next_node'' = Some (JStr ''ghost'')"
    by (simp_all add: tool_ghost_def returned_doc_def update_conv')
  have v: "JStr ''ghost'' \<noteq> JNull"
    "\<forall>n'. JStr ''ghost'' = JStr n' \<longrightarrow> nodes (single_node ''ghost'') n' = None"
    by (simp_all add: single_node_def)
  have e: "lookup_node (single_node ''ghost'') (JStr ''ghost'') =
             Inl (KeyError (JStr ''ghost''))"
    by (simp add: lookup_node_def single_node_def)
  from unknown_override_fails_next [OF ex_graphs(3) lh more cur n d v] e
  show ?thesis by auto
qed

end
